theory Spec2Isabelle
  imports Main
begin

section \<open>The Snake game of \<open>snake_game.py\<close>\<close>

text \<open>
  The class \<open>SnakeGame\<close> is embedded as a record of its fields, each method as a function
  from the state before the call to the state after it. Three things live outside the
  object and are made explicit:
  \<^item> the random generator behind \<open>random.randint\<close>: a tape of raw draws \<open>nat \<Rightarrow> nat\<close>
    read at a cursor, every call of \<open>randint\<close> consuming one draw;
  \<^item> the console input buffer behind \<open>msvcrt.kbhit\<close> and \<open>msvcrt.getch\<close>: the list of
    bytes that are pending, oldest first;
  \<^item> the clock of the 200 ms input window: the number of times the window's loop
    condition \<open>time.time() - start_time < 0.2\<close> is found true.

  A call has one of three outcomes: it returns a value (\<open>Some (Inr v)\<close>), it raises
  (\<open>Some (Inl e)\<close>), or it does not return (\<open>None\<close>): the retry loop of
  \<open>generate_food\<close> has no bound, and \<open>getch\<close> waits for a key.
  \<open>draw\<close> assigns no field, but its writes into the character grid can raise; it
  is embedded as the grid it builds. What is printed (\<open>clear_screen\<close>, the rows, the
  status lines, the banners) is left out.
\<close>

subsection \<open>Data\<close>

type_synonym pos = "int \<times> int"

datatype error = IndexError | ValueError | UnicodeDecodeError

record game =
  width :: int
  height :: int
  snake :: "pos list"
  direction :: pos
  food :: pos
  score :: int
  game_over :: bool

type_synonym rng = "nat \<Rightarrow> nat"

type_synonym kbd = "char list"

subsection \<open>\<open>generate_food\<close>\<close>

text \<open>
  \<open>random.randint(a, b)\<close> raises \<open>ValueError\<close> on an empty range and otherwise returns
  some integer of \<open>[a, b]\<close>; which one is decided by the raw draw \<open>r\<close>, and every member
  of the range is the image of some draw.
\<close>

definition randint :: "int \<Rightarrow> int \<Rightarrow> nat \<Rightarrow> error + int" where
  "randint a b r = (if b < a then Inl ValueError else Inr (a + int r mod (b - a + 1)))"

text \<open>
  The loop \<open>while True\<close> of \<open>generate_food\<close>: one attempt draws the column, then the row,
  and returns the cell when it is not on the snake. The arguments \<open>w\<close>, \<open>h\<close> and \<open>sn\<close>
  are the fields \<open>self.width\<close>, \<open>self.height\<close> and \<open>self.snake\<close> the method reads; the
  result carries the cursor of the tape after the call.
\<close>

partial_function (option) generate_food ::
  "rng \<Rightarrow> int \<Rightarrow> int \<Rightarrow> pos list \<Rightarrow> nat \<Rightarrow> (error + pos \<times> nat) option" where
  "generate_food rnd w h sn i =
     (case randint 1 (w - 2) (rnd i) of
        Inl e \<Rightarrow> Some (Inl e)
      | Inr x \<Rightarrow>
          (case randint 1 (h - 2) (rnd (i + 1)) of
             Inl e \<Rightarrow> Some (Inl e)
           | Inr y \<Rightarrow>
               if (x, y) \<notin> set sn then Some (Inr ((x, y), i + 2))
               else generate_food rnd w h sn (i + 2)))"

text \<open>The cell that the attempt starting at cursor \<open>k\<close> draws on a board with an interior.\<close>

definition attempt :: "rng \<Rightarrow> int \<Rightarrow> int \<Rightarrow> nat \<Rightarrow> pos" where
  "attempt rnd w h k = (1 + int (rnd k) mod (w - 2), 1 + int (rnd (k + 1)) mod (h - 2))"

text \<open>The interior playable area \<open>[1, width-2] \<times> [1, height-2]\<close>.\<close>

definition interior :: "int \<Rightarrow> int \<Rightarrow> pos \<Rightarrow> bool" where
  "interior w h p \<longleftrightarrow> 1 \<le> fst p \<and> fst p \<le> w - 2 \<and> 1 \<le> snd p \<and> snd p \<le> h - 2"

text \<open>A tape whose every draw is 0: every attempt lands on the cell \<open>(1, 1)\<close>.\<close>

definition zero_rng :: rng where
  "zero_rng n = 0"

text \<open>
  A tape that scans a grid of \<open>c\<close> columns row by row, again and again: attempt number
  \<open>n\<close> draws column \<open>n mod c\<close> and row \<open>n div c\<close>.
\<close>

definition scan_rng :: "nat \<Rightarrow> rng" where
  "scan_rng c k = (if even k then k div 2 else (k div 2) div c)"

text \<open>
  A random source that, from cursor \<open>i\<close> on, draws every cell of the interior at some
  attempt. This is what \<open>random.randint\<close> is relied on for: a source that left a cell
  out for ever would not be drawing at random.
\<close>

definition fair_source :: "rng \<Rightarrow> int \<Rightarrow> int \<Rightarrow> nat \<Rightarrow> bool" where
  "fair_source rnd w h i \<longleftrightarrow>
     (\<forall>q. interior w h q \<longrightarrow> (\<exists>n. attempt rnd w h (i + 2 * n) = q))"

subsection \<open>\<open>__init__\<close>\<close>

definition init_game :: "rng \<Rightarrow> int \<Rightarrow> int \<Rightarrow> nat \<Rightarrow> (error + game \<times> nat) option" where
  "init_game rnd w h i =
     (case generate_food rnd w h [(w div 2, h div 2)] i of
        None \<Rightarrow> None
      | Some (Inl e) \<Rightarrow> Some (Inl e)
      | Some (Inr (f, j)) \<Rightarrow>
          Some (Inr (\<lparr>width = w, height = h, snake = [(w div 2, h div 2)],
                      direction = (1, 0), food = f, score = 0, game_over = False\<rparr>, j)))"

subsection \<open>\<open>update_direction\<close>\<close>

definition directions :: "string \<rightharpoonup> pos" where
  "directions = [''w'' \<mapsto> (0, -1), ''s'' \<mapsto> (0, 1), ''a'' \<mapsto> (-1, 0), ''d'' \<mapsto> (1, 0)]"

definition update_direction :: "game \<Rightarrow> string \<Rightarrow> game" where
  "update_direction g key =
     (case directions key of
        None \<Rightarrow> g
      | Some new_direction \<Rightarrow>
          if (fst new_direction * -1, snd new_direction * -1) \<noteq> direction g
          then g\<lparr>direction := new_direction\<rparr>
          else g)"

subsection \<open>\<open>move_snake\<close>\<close>

text \<open>The wall test of \<open>move_snake\<close> on the new head.\<close>

definition hits_wall :: "game \<Rightarrow> pos \<Rightarrow> bool" where
  "hits_wall g new_head \<longleftrightarrow>
     fst new_head \<le> 0 \<or> fst new_head \<ge> width g - 1 \<or>
     snd new_head \<le> 0 \<or> snd new_head \<ge> height g - 1"

definition move_snake :: "rng \<Rightarrow> game \<Rightarrow> nat \<Rightarrow> (error + game \<times> nat) option" where
  "move_snake rnd g i =
     (case snake g of
        [] \<Rightarrow> Some (Inl IndexError)
      | (head_x, head_y) # _ \<Rightarrow>
          let new_head = (head_x + fst (direction g), head_y + snd (direction g)) in
          if hits_wall g new_head then Some (Inr (g\<lparr>game_over := True\<rparr>, i))
          else if new_head \<in> set (snake g) then Some (Inr (g\<lparr>game_over := True\<rparr>, i))
          else
            let g1 = g\<lparr>snake := new_head # snake g\<rparr> in
            if new_head = food g1 then
              let g2 = g1\<lparr>score := score g1 + 10\<rparr> in
              (case generate_food rnd (width g2) (height g2) (snake g2) i of
                 None \<Rightarrow> None
               | Some (Inl e) \<Rightarrow> Some (Inl e)
               | Some (Inr (f, j)) \<Rightarrow> Some (Inr (g2\<lparr>food := f\<rparr>, j)))
            else Some (Inr (g1\<lparr>snake := butlast (snake g1)\<rparr>, i)))"

subsection \<open>\<open>draw\<close>\<close>

text \<open>
  The grid is a list of rows. A Python list index \<open>k\<close> on a list of length \<open>n\<close> is
  valid from \<open>-n\<close> to \<open>n - 1\<close>, a negative one counting from the end, and raises
  \<open>IndexError\<close> outside; \<open>set_cell\<close> is the assignment \<open>board[y][x] = c\<close>, \<open>for_each\<close>
  a \<open>for\<close> loop whose body may raise, \<open>range_py\<close> is \<open>range\<close>. \<open>draw\<close> returns the grid
  as it stands when the rows are printed.
\<close>

type_synonym board = "char list list"

definition py_index :: "nat \<Rightarrow> int \<Rightarrow> error + nat" where
  "py_index n k =
     (if 0 \<le> k \<and> k < int n then Inr (nat k)
      else if k < 0 \<and> - int n \<le> k then Inr (nat (int n + k))
      else Inl IndexError)"

definition set_cell :: "board \<Rightarrow> int \<Rightarrow> int \<Rightarrow> char \<Rightarrow> error + board" where
  "set_cell b y x c =
     (case py_index (length b) y of
        Inl e \<Rightarrow> Inl e
      | Inr r \<Rightarrow>
          (case py_index (length (b ! r)) x of
             Inl e \<Rightarrow> Inl e
           | Inr k \<Rightarrow> Inr (b[r := (b ! r)[k := c]])))"

fun for_each :: "('a \<Rightarrow> 's \<Rightarrow> error + 's) \<Rightarrow> 'a list \<Rightarrow> 's \<Rightarrow> error + 's" where
  "for_each body [] s = Inr s"
| "for_each body (x # xs) s =
     (case body x s of Inl e \<Rightarrow> Inl e | Inr s' \<Rightarrow> for_each body xs s')"

definition range_py :: "int \<Rightarrow> int list" where
  "range_py n = map int [0..<nat n]"

text \<open>
  The border, the snake (head \<open>@\<close>, body \<open>*\<close>) and the food, written in the order of
  the source.
\<close>

definition draw :: "game \<Rightarrow> error + board" where
  "draw g =
     (let board = replicate (nat (height g)) (replicate (nat (width g)) (CHR 0x20)) in
      case for_each
             (\<lambda>x b. case set_cell b 0 x (CHR ''#'') of
                      Inl e \<Rightarrow> Inl e
                    | Inr b' \<Rightarrow> set_cell b' (height g - 1) x (CHR ''#''))
             (range_py (width g)) board of
        Inl e \<Rightarrow> Inl e
      | Inr board1 \<Rightarrow>
          (case for_each
                  (\<lambda>y b. case set_cell b y 0 (CHR ''#'') of
                           Inl e \<Rightarrow> Inl e
                         | Inr b' \<Rightarrow> set_cell b' y (width g - 1) (CHR ''#''))
                  (range_py (height g)) board1 of
             Inl e \<Rightarrow> Inl e
           | Inr board2 \<Rightarrow>
               (case for_each
                       (\<lambda>(i, (x, y)) b.
                           set_cell b y x (if i = 0 then CHR ''@'' else CHR ''*''))
                       (enumerate 0 (snake g)) board2 of
                  Inl e \<Rightarrow> Inl e
                | Inr board3 \<Rightarrow>
                    set_cell board3 (snd (food g)) (fst (food g)) (CHR ''$''))))"

text \<open>
  Two predicates for stating when \<open>draw\<close> returns: a grid of the given numbers of rows
  and columns, and a cell with both coordinates on the board.
\<close>

definition board_dims :: "nat \<Rightarrow> nat \<Rightarrow> board \<Rightarrow> bool" where
  "board_dims rows cols b \<longleftrightarrow> length b = rows \<and> (\<forall>r \<in> set b. length r = cols)"

definition on_board :: "game \<Rightarrow> pos \<Rightarrow> bool" where
  "on_board g p \<longleftrightarrow> 0 \<le> fst p \<and> fst p < width g \<and> 0 \<le> snd p \<and> snd p < height g"

subsection \<open>\<open>get_input\<close>\<close>

text \<open>
  \<open>bytes.decode('utf-8')\<close> of the single byte \<open>getch\<close> returned: a byte below \<open>0x80\<close> is the
  character of that code, any other byte is not a complete UTF-8 sequence and raises.
\<close>

definition decode_utf8 :: "char \<Rightarrow> error + string" where
  "decode_utf8 c = (if (of_char c :: nat) < 128 then Inr [c] else Inl UnicodeDecodeError)"

definition lower_char :: "char \<Rightarrow> char" where
  "lower_char c =
     (if (65::nat) \<le> of_char c \<and> (of_char c :: nat) \<le> 90
      then char_of ((of_char c :: nat) + 32) else c)"

definition lower :: "string \<Rightarrow> string" where
  "lower s = map lower_char s"

text \<open>
  \<open>get_input\<close> on the pending bytes \<open>kb\<close>: the key it returns (Python's \<open>None\<close> is
  \<open>None\<close>) and the bytes left pending. \<open>kbhit\<close> is false on the empty buffer. After the
  arrow prefix \<open>0xE0\<close> the second \<open>getch\<close> is not guarded by \<open>kbhit\<close>: with nothing
  pending it waits, and the call does not return. An unknown code after the prefix
  falls through to the final \<open>return None\<close>, both bytes consumed.
\<close>

definition get_input :: "kbd \<Rightarrow> (error + string option \<times> kbd) option" where
  "get_input kb =
     (case kb of
        [] \<Rightarrow> Some (Inr (None, []))
      | key # kb1 \<Rightarrow>
          if key = CHR 0xE0 then
            (case kb1 of
               [] \<Rightarrow> None
             | key2 # kb2 \<Rightarrow>
                 if key2 = CHR ''H'' then Some (Inr (Some ''w'', kb2))
                 else if key2 = CHR ''P'' then Some (Inr (Some ''s'', kb2))
                 else if key2 = CHR ''K'' then Some (Inr (Some ''a'', kb2))
                 else if key2 = CHR ''M'' then Some (Inr (Some ''d'', kb2))
                 else Some (Inr (None, kb2)))
          else
            (case decode_utf8 key of
               Inl e \<Rightarrow> Some (Inl e)
             | Inr s \<Rightarrow> Some (Inr (Some (lower s), kb1))))"

text \<open>Python's truth value of a key: \<open>None\<close> and the empty string are false.\<close>

definition truthy :: "string option \<Rightarrow> bool" where
  "truthy key = (case key of None \<Rightarrow> False | Some s \<Rightarrow> s \<noteq> [])"

subsection \<open>\<open>run\<close>\<close>

text \<open>
  The input window of \<open>run\<close> (the inner \<open>while\<close>): the first argument counts how often
  the clock still finds the window open, the second is the variable \<open>key\<close>. The window
  ends at the first true key (\<open>break\<close>) or when the clock closes it.
\<close>

fun poll_window :: "nat \<Rightarrow> string option \<Rightarrow> kbd \<Rightarrow> (error + string option \<times> kbd) option" where
  "poll_window 0 key kb = Some (Inr (key, kb))"
| "poll_window (Suc n) key kb =
     (case get_input kb of
        None \<Rightarrow> None
      | Some (Inl e) \<Rightarrow> Some (Inl e)
      | Some (Inr (key', kb')) \<Rightarrow>
          if truthy key' then Some (Inr (key', kb')) else poll_window n key' kb')"

text \<open>
  The buffer after \<open>m\<close> polls in a row that each returned without a key; \<open>None\<close> when
  one of them found a key, raised or did not return.
\<close>

fun idle_polls :: "nat \<Rightarrow> kbd \<Rightarrow> kbd option" where
  "idle_polls 0 kb = Some kb"
| "idle_polls (Suc m) kb =
     (case get_input kb of
        Some (Inr (key, kb')) \<Rightarrow> if truthy key then None else idle_polls m kb'
      | _ \<Rightarrow> None)"

text \<open>
  One pass through the body of \<open>while not self.game_over\<close>, for a window of \<open>polls\<close>
  polls: \<open>draw\<close>, the window, the key, the move. The flag returned first is true when
  the pass left the loop by \<open>break\<close> on the key \<open>q\<close>.
\<close>

definition run_iteration ::
  "rng \<Rightarrow> nat \<Rightarrow> game \<Rightarrow> kbd \<Rightarrow> nat \<Rightarrow> (error + bool \<times> game \<times> kbd \<times> nat) option" where
  "run_iteration rnd polls g kb i =
     (case draw g of
        Inl e \<Rightarrow> Some (Inl e)
      | Inr board \<Rightarrow>
          (case poll_window polls None kb of
             None \<Rightarrow> None
           | Some (Inl e) \<Rightarrow> Some (Inl e)
           | Some (Inr (key, kb')) \<Rightarrow>
               if key = Some ''q'' then Some (Inr (True, g, kb', i))
               else
                 let g1 = (if truthy key then update_direction g (the key) else g) in
                 (case move_snake rnd g1 i of
                    None \<Rightarrow> None
                  | Some (Inl e) \<Rightarrow> Some (Inl e)
                  | Some (Inr (g2, j)) \<Rightarrow> Some (Inr (False, g2, kb', j)))))"

text \<open>
  The loop \<open>while not self.game_over\<close> of \<open>run\<close>, driven by a script with one entry for
  each pass: the bytes typed since the last pass and the number of polls of its window.
  The flag returned first is true when the loop was left (game over, or \<open>q\<close>), false
  when the script ended with the game still running.
\<close>

fun run_loop ::
  "rng \<Rightarrow> (kbd \<times> nat) list \<Rightarrow> game \<Rightarrow> kbd \<Rightarrow> nat \<Rightarrow> (error + bool \<times> game \<times> kbd \<times> nat) option" where
  "run_loop rnd [] g kb i = Some (Inr (game_over g, g, kb, i))"
| "run_loop rnd ((typed, polls) # script) g kb i =
     (if game_over g then Some (Inr (True, g, kb, i))
      else
        (case run_iteration rnd polls g (kb @ typed) i of
           None \<Rightarrow> None
         | Some (Inl e) \<Rightarrow> Some (Inl e)
         | Some (Inr (quit, g', kb', j)) \<Rightarrow>
             if quit then Some (Inr (True, g', kb', j))
             else run_loop rnd script g' kb' j))"

subsection \<open>Steps and reachable states\<close>

text \<open>
  A step is a call of one of the two methods that assign fields after construction;
  a state is reachable when a constructor call returned it or a step leads to it from
  a reachable state. Every pass of \<open>run\<close> is made of such steps.
\<close>

inductive step :: "game \<Rightarrow> game \<Rightarrow> bool" where
  step_direction: "step g (update_direction g key)"
| step_move: "move_snake rnd g i = Some (Inr (g', j)) \<Longrightarrow> step g g'"

inductive reachable :: "game \<Rightarrow> bool" where
  reachable_init: "init_game rnd w h i = Some (Inr (g, j)) \<Longrightarrow> reachable g"
| reachable_step: "reachable g \<Longrightarrow> step g g' \<Longrightarrow> reachable g'"

subsection \<open>The input window as the specification words it\<close>

text \<open>
  The specification's reading of the window, for comparison with \<open>poll_window\<close>: of the
  commands pending in the window the last one is applied, earlier ones are superseded,
  and the first \<open>q\<close> ends the window.
\<close>

fun spec_window_command :: "string list \<Rightarrow> string option \<Rightarrow> string option" where
  "spec_window_command [] acc = acc"
| "spec_window_command (c # cs) acc =
     (if c = ''q'' then Some ''q'' else spec_window_command cs (Some c))"

subsection \<open>Example states\<close>

text \<open>
  The default game \<open>SnakeGame()\<close> as the constructor returns it on the tape \<open>zero_rng\<close>:
  the first attempt \<open>(1, 1)\<close> is free.
\<close>

definition start_game :: game where
  "start_game = \<lparr>width = 40, height = 20, snake = [(20, 10)], direction = (1, 0),
                  food = (1, 1), score = 0, game_over = False\<rparr>"

text \<open>A 10 by 10 board, the head one step left of the right wall.\<close>

definition wall_game :: game where
  "wall_game = \<lparr>width = 10, height = 10, snake = [(8, 5)], direction = (1, 0),
                 food = (3, 3), score = 0, game_over = False\<rparr>"

text \<open>
  A snake of four segments coiled in a square; it came down, left and up, and now
  heads right, onto the cell of its own tail.
\<close>

definition ring_game :: game where
  "ring_game = \<lparr>width = 10, height = 10, snake = [(5, 5), (5, 6), (6, 6), (6, 5)],
                 direction = (1, 0), food = (2, 2), score = 30, game_over = False\<rparr>"

text \<open>
  A game on the smallest board with room to move, 4 by 4 with an interior of four
  cells, played on the tape \<open>scan_rng 2\<close>: the constructor, then up, left onto the food,
  down onto the food, and a turn to the right, where the last free cell holds the food.
\<close>

definition tiny_start :: game where
  "tiny_start = \<lparr>width = 4, height = 4, snake = [(2, 2)], direction = (1, 0),
                  food = (1, 1), score = 0, game_over = False\<rparr>"

definition tiny_two :: game where
  "tiny_two = \<lparr>width = 4, height = 4, snake = [(1, 1), (2, 1)], direction = (-1, 0),
                food = (1, 2), score = 10, game_over = False\<rparr>"

definition tiny_three :: game where
  "tiny_three = \<lparr>width = 4, height = 4, snake = [(1, 2), (1, 1), (2, 1)],
                  direction = (0, 1), food = (2, 2), score = 20, game_over = False\<rparr>"

definition full_game :: game where
  "full_game = \<lparr>width = 4, height = 4, snake = [(1, 2), (1, 1), (2, 1)],
                 direction = (1, 0), food = (2, 2), score = 20, game_over = False\<rparr>"

section \<open>Properties\<close>

subsection \<open>The retry loop of \<open>generate_food\<close>\<close>

text \<open>
  On a board with an interior (\<open>3 \<le> w\<close>, \<open>3 \<le> h\<close>) both ranges of \<open>randint\<close> are
  non-empty and one pass of the loop is one attempt.
\<close>

lemma generate_food_unfold:
  "3 \<le> w \<Longrightarrow> 3 \<le> h \<Longrightarrow>
   generate_food rnd w h sn i =
     (if attempt rnd w h i \<notin> set sn then Some (Inr (attempt rnd w h i, i + 2))
      else generate_food rnd w h sn (i + 2))"
  by (subst generate_food.simps) (simp add: randint_def attempt_def)

lemma generate_food_small:
  "w < 3 \<or> h < 3 \<Longrightarrow> generate_food rnd w h sn i = Some (Inl ValueError)"
  by (subst generate_food.simps) (auto simp add: randint_def)

lemma attempt_interior:
  assumes "3 \<le> w" "3 \<le> h"
  shows "interior w h (attempt rnd w h k)"
proof -
  have "0 \<le> int (rnd k) mod (w - 2)" "int (rnd k) mod (w - 2) < w - 2"
    using assms by simp_all
  moreover have "0 \<le> int (rnd (k + 1)) mod (h - 2)" "int (rnd (k + 1)) mod (h - 2) < h - 2"
    using assms by simp_all
  ultimately show ?thesis
    unfolding interior_def attempt_def by simp
qed

lemma generate_food_first_free:
  assumes wh: "3 \<le> w" "3 \<le> h"
  shows "attempt rnd w h (i + 2 * n) \<notin> set sn \<Longrightarrow>
         (\<forall>m<n. attempt rnd w h (i + 2 * m) \<in> set sn) \<Longrightarrow>
         generate_food rnd w h sn i = Some (Inr (attempt rnd w h (i + 2 * n), i + 2 * n + 2))"
proof (induction n arbitrary: i)
  case 0
  then show ?case by (subst generate_food_unfold[OF wh]) simp
next
  case (Suc n)
  have hit: "attempt rnd w h i \<in> set sn" using Suc.prems(2)[rule_format, of 0] by simp
  have free: "attempt rnd w h (i + 2 + 2 * n) \<notin> set sn"
    using Suc.prems(1) by (simp add: add.assoc)
  have rest: "\<forall>m<n. attempt rnd w h (i + 2 + 2 * m) \<in> set sn"
  proof (intro allI impI)
    fix m assume "m < n"
    then have "attempt rnd w h (i + 2 * Suc m) \<in> set sn" using Suc.prems(2) by blast
    then show "attempt rnd w h (i + 2 + 2 * m) \<in> set sn" by (simp add: add.assoc)
  qed
  have "generate_food rnd w h sn i = generate_food rnd w h sn (i + 2)"
    using hit by (subst generate_food_unfold[OF wh]) simp
  also have "\<dots> = Some (Inr (attempt rnd w h (i + 2 + 2 * n), i + 2 + 2 * n + 2))"
    by (rule Suc.IH[OF free rest])
  finally show ?case by (simp add: add.assoc)
qed

lemma generate_food_never_free_aux:
  assumes "generate_food rnd w h sn i = Some r"
  shows "\<not> (3 \<le> w \<and> 3 \<le> h \<and> (\<forall>n. attempt rnd w h (i + 2 * n) \<in> set sn))"
proof (rule generate_food.raw_induct
    [where P = "\<lambda>rnd w h sn i r.
       \<not> (3 \<le> w \<and> 3 \<le> h \<and> (\<forall>n. attempt rnd w h (i + 2 * n) \<in> set sn))",
     OF _ assms])
  fix gf :: "rng \<Rightarrow> int \<Rightarrow> int \<Rightarrow> pos list \<Rightarrow> nat \<Rightarrow> (error + pos \<times> nat) option"
  fix rnd w h sn i r
  assume IH: "\<And>rnd w h sn i r. gf rnd w h sn i = Some r \<Longrightarrow>
      \<not> (3 \<le> w \<and> 3 \<le> h \<and> (\<forall>n. attempt rnd w h (i + 2 * n) \<in> set sn))"
  assume body: "(case randint 1 (w - 2) (rnd i) of
        Inl e \<Rightarrow> Some (Inl e)
      | Inr x \<Rightarrow>
          (case randint 1 (h - 2) (rnd (i + 1)) of
             Inl e \<Rightarrow> Some (Inl e)
           | Inr y \<Rightarrow>
               if (x, y) \<notin> set sn then Some (Inr ((x, y), i + 2))
               else gf rnd w h sn (i + 2))) = Some r"
  show "\<not> (3 \<le> w \<and> 3 \<le> h \<and> (\<forall>n. attempt rnd w h (i + 2 * n) \<in> set sn))"
  proof
    assume a: "3 \<le> w \<and> 3 \<le> h \<and> (\<forall>n. attempt rnd w h (i + 2 * n) \<in> set sn)"
    then have "attempt rnd w h (i + 2 * 0) \<in> set sn" by blast
    then have hit: "attempt rnd w h i \<in> set sn" by simp
    have r1: "randint 1 (w - 2) (rnd i) = Inr (fst (attempt rnd w h i))"
      using a by (simp add: randint_def attempt_def)
    have r2: "randint 1 (h - 2) (rnd (i + 1)) = Inr (snd (attempt rnd w h i))"
      using a by (simp add: randint_def attempt_def)
    have "gf rnd w h sn (i + 2) = Some r"
      using body hit unfolding r1 r2 by simp
    from IH[OF this] a obtain n where "attempt rnd w h (i + 2 + 2 * n) \<notin> set sn" by blast
    moreover have "attempt rnd w h (i + 2 * Suc n) \<in> set sn" using a by blast
    ultimately show False by (simp add: add.assoc)
  qed
qed

lemma generate_food_never_free:
  assumes "3 \<le> w" "3 \<le> h" "\<forall>n. attempt rnd w h (i + 2 * n) \<in> set sn"
  shows "generate_food rnd w h sn i = None"
proof (cases "generate_food rnd w h sn i")
  case None then show ?thesis .
next
  case (Some r)
  from generate_food_never_free_aux[OF Some] assms show ?thesis by blast
qed

text \<open>What a returning call returned: the first free attempt of the tape.\<close>

lemma generate_food_result:
  assumes "generate_food rnd w h sn i = Some (Inr (p, j))"
  shows "3 \<le> w \<and> 3 \<le> h \<and> interior w h p \<and> p \<notin> set sn \<and>
         (\<exists>n. p = attempt rnd w h (i + 2 * n) \<and> j = i + 2 * n + 2)"
proof -
  have "\<not> (w < 3 \<or> h < 3)"
    using assms generate_food_small[of w h rnd sn i] by auto
  then have wh: "3 \<le> w" "3 \<le> h" by simp_all
  have "\<exists>n. attempt rnd w h (i + 2 * n) \<notin> set sn"
    using assms generate_food_never_free[OF wh, of rnd i sn] by auto
  then obtain n where n: "attempt rnd w h (i + 2 * n) \<notin> set sn"
    "\<forall>m<n. attempt rnd w h (i + 2 * m) \<in> set sn"
    using exists_least_iff[of "\<lambda>n. attempt rnd w h (i + 2 * n) \<notin> set sn"] by auto
  from generate_food_first_free[OF wh n] assms
  have "p = attempt rnd w h (i + 2 * n)" "j = i + 2 * n + 2" by simp_all
  with n(1) wh attempt_interior[OF wh, of rnd "i + 2 * n"] show ?thesis by auto
qed

subsection \<open>The branches of \<open>move_snake\<close>\<close>

text \<open>
  A tick on a snake with a head ends in one of three ways: a collision (wall first, then
  the snake itself), a move onto the food, or a plain move. The lemmas below give the
  state after each, and \<open>move_snake_cases\<close> recovers the branch from a returned state.
\<close>

lemma move_snake_wall:
  assumes "snake g = (hx, hy) # t"
    and "hits_wall g (hx + fst (direction g), hy + snd (direction g))"
  shows "move_snake rnd g i = Some (Inr (g\<lparr>game_over := True\<rparr>, i))"
  using assms by (simp add: move_snake_def)

lemma move_snake_self:
  assumes "snake g = (hx, hy) # t"
    and "(hx + fst (direction g), hy + snd (direction g)) \<in> set (snake g)"
  shows "move_snake rnd g i = Some (Inr (g\<lparr>game_over := True\<rparr>, i))"
  using assms by (simp add: move_snake_def Let_def)

lemma move_snake_eat:
  assumes "snake g = (hx, hy) # t"
    and "nh = (hx + fst (direction g), hy + snd (direction g))"
    and "\<not> hits_wall g nh" and "nh \<notin> set (snake g)" and "nh = food g"
  shows "move_snake rnd g i =
     (case generate_food rnd (width g) (height g) (nh # snake g) i of
        None \<Rightarrow> None
      | Some (Inl e) \<Rightarrow> Some (Inl e)
      | Some (Inr (f, j)) \<Rightarrow>
          Some (Inr (g\<lparr>snake := nh # snake g, score := score g + 10, food := f\<rparr>, j)))"
  using assms by (auto simp add: move_snake_def Let_def split: option.splits sum.splits)

lemma move_snake_plain:
  assumes "snake g = (hx, hy) # t"
    and "nh = (hx + fst (direction g), hy + snd (direction g))"
    and "\<not> hits_wall g nh" and "nh \<notin> set (snake g)" and "nh \<noteq> food g"
  shows "move_snake rnd g i = Some (Inr (g\<lparr>snake := nh # butlast (snake g)\<rparr>, i))"
  using assms by (auto simp add: move_snake_def Let_def)

lemma move_snake_cases:
  assumes "move_snake rnd g i = Some (Inr (g', j))"
  obtains
    (collision) hx hy t where "snake g = (hx, hy) # t"
      "hits_wall g (hx + fst (direction g), hy + snd (direction g)) \<or>
       (hx + fst (direction g), hy + snd (direction g)) \<in> set (snake g)"
      "g' = g\<lparr>game_over := True\<rparr>" "j = i"
  | (eat) hx hy t nh f where "snake g = (hx, hy) # t"
      "nh = (hx + fst (direction g), hy + snd (direction g))"
      "\<not> hits_wall g nh" "nh \<notin> set (snake g)" "nh = food g"
      "generate_food rnd (width g) (height g) (nh # snake g) i = Some (Inr (f, j))"
      "g' = g\<lparr>snake := nh # snake g, score := score g + 10, food := f\<rparr>"
  | (plain) hx hy t nh where "snake g = (hx, hy) # t"
      "nh = (hx + fst (direction g), hy + snd (direction g))"
      "\<not> hits_wall g nh" "nh \<notin> set (snake g)" "nh \<noteq> food g"
      "g' = g\<lparr>snake := nh # butlast (snake g)\<rparr>" "j = i"
proof (cases "snake g")
  case Nil
  with assms show ?thesis by (simp add: move_snake_def)
next
  case (Cons hd t)
  obtain hx hy where hd: "hd = (hx, hy)" by (cases hd)
  with Cons have sn: "snake g = (hx, hy) # t" by simp
  define nh where "nh = (hx + fst (direction g), hy + snd (direction g))"
  show ?thesis
  proof (cases "hits_wall g nh \<or> nh \<in> set (snake g)")
    case True
    then have "move_snake rnd g i = Some (Inr (g\<lparr>game_over := True\<rparr>, i))"
      using move_snake_wall[OF sn] move_snake_self[OF sn] unfolding nh_def by blast
    with assms have "g' = g\<lparr>game_over := True\<rparr>" "j = i" by simp_all
    with True sn show ?thesis using collision unfolding nh_def by blast
  next
    case False
    then have nw: "\<not> hits_wall g nh" and ns: "nh \<notin> set (snake g)" by simp_all
    show ?thesis
    proof (cases "nh = food g")
      case True
      note eq = move_snake_eat[OF sn nh_def nw ns True, of rnd i]
      from assms obtain f where
        "generate_food rnd (width g) (height g) (nh # snake g) i = Some (Inr (f, j))"
        "g' = g\<lparr>snake := nh # snake g, score := score g + 10, food := f\<rparr>"
        unfolding eq by (auto split: option.splits sum.splits)
      then show ?thesis using eat[OF sn nh_def nw ns True] by blast
    next
      case False
      from move_snake_plain[OF sn nh_def nw ns False, of rnd i] assms
      have "g' = g\<lparr>snake := nh # butlast (snake g)\<rparr>" "j = i" by simp_all
      then show ?thesis using plain[OF sn nh_def nw ns False] by blast
    qed
  qed
qed

lemma update_direction_fields:
  "update_direction g key = g\<lparr>direction := direction (update_direction g key)\<rparr>"
  by (simp add: update_direction_def split: option.splits)

lemma move_snake_distinct:
  assumes "move_snake rnd g i = Some (Inr (g', j))" and "distinct (snake g)"
  shows "distinct (snake g')"
  using assms(1)
proof (cases rule: move_snake_cases)
  case collision
  with assms(2) show ?thesis by simp
next
  case eat
  with assms(2) show ?thesis by simp
next
  case plain
  with assms(2) show ?thesis by (auto simp: distinct_butlast dest: in_set_butlastD)
qed

lemma move_snake_food_free:
  assumes "move_snake rnd g i = Some (Inr (g', j))" and "food g \<notin> set (snake g)"
  shows "food g' \<notin> set (snake g')"
  using assms(1)
proof (cases rule: move_snake_cases)
  case collision
  with assms(2) show ?thesis by simp
next
  case eat
  from generate_food_result[OF eat(6)] eat(7) show ?thesis by simp
next
  case plain
  with assms(2) show ?thesis by (auto dest: in_set_butlastD)
qed

lemma move_snake_game_over:
  assumes "move_snake rnd g i = Some (Inr (g', j))" and "game_over g"
  shows "game_over g'"
  using assms(1)
  by (cases rule: move_snake_cases) (use assms(2) in simp_all)

lemma init_game_result:
  assumes "init_game rnd w h i = Some (Inr (g, j))"
  shows "generate_food rnd w h [(w div 2, h div 2)] i = Some (Inr (food g, j)) \<and>
         g = \<lparr>width = w, height = h, snake = [(w div 2, h div 2)],
              direction = (1, 0), food = food g, score = 0, game_over = False\<rparr>"
  using assms unfolding init_game_def
  by (auto split: option.splits sum.splits)

subsection \<open>Collisions\<close>

text \<open>
  Claim C3. When the new head, head plus direction, has \<open>x \<le> 0\<close>, \<open>x \<ge> width - 1\<close>,
  \<open>y \<le> 0\<close> or \<open>y \<ge> height - 1\<close>, the tick returns with \<open>game_over\<close> set and with the
  snake, the score, the direction and the food as they were: the state after the tick
  is the state before it with the flag set, and no random draw is consumed. This holds
  whatever the flag was before the tick.
\<close>

theorem wall_collision_ends_game:
  assumes "snake g = (hx, hy) # t"
    and "nh = (hx + fst (direction g), hy + snd (direction g))"
    and "fst nh \<le> 0 \<or> fst nh \<ge> width g - 1 \<or> snd nh \<le> 0 \<or> snd nh \<ge> height g - 1"
  shows "\<exists>g'. move_snake rnd g i = Some (Inr (g', i)) \<and> game_over g' \<and>
           snake g' = snake g \<and> score g' = score g \<and> direction g' = direction g \<and>
           food g' = food g \<and> g' = g\<lparr>game_over := True\<rparr>"
proof -
  have "hits_wall g (hx + fst (direction g), hy + snd (direction g))"
    using assms(2,3) by (simp add: hits_wall_def)
  from move_snake_wall[OF assms(1) this] show ?thesis by simp
qed

theorem wall_collision_ends_game_witness:
  "snake wall_game = (8, 5) # [] \<and>
   (9, 5) = (8 + fst (direction wall_game), 5 + snd (direction wall_game)) \<and>
   fst ((9, 5) :: pos) \<ge> width wall_game - 1 \<and>
   (\<exists>g'. move_snake zero_rng wall_game 0 = Some (Inr (g', 0)) \<and> game_over g' \<and>
      snake g' = [(8, 5)] \<and> score g' = 0 \<and> direction g' = (1, 0) \<and> food g' = (3, 3))"
  using wall_collision_ends_game [of wall_game 8 5 "[]" "(9, 5)" zero_rng 0]
  by (simp add: wall_game_def)

text \<open>
  Claim C9. On a snake of at least two segments, when the new head lies inside the
  border and is the cell of the last segment, the tick sets \<open>game_over\<close> and changes
  nothing else: \<open>new_head in self.snake\<close> is tested on the whole snake, tail included,
  before any tail is removed.
\<close>

theorem tail_cell_collision:
  assumes "snake g = (hx, hy) # t" and "2 \<le> length (snake g)"
    and "nh = (hx + fst (direction g), hy + snd (direction g))"
    and "\<not> hits_wall g nh"
    and "nh = last (snake g)"
  shows "move_snake rnd g i = Some (Inr (g\<lparr>game_over := True\<rparr>, i))"
proof -
  have "snake g \<noteq> []" using assms(1) by simp
  then have "last (snake g) \<in> set (snake g)" by (rule last_in_set)
  then have "(hx + fst (direction g), hy + snd (direction g)) \<in> set (snake g)"
    using assms(3,5) by simp
  from move_snake_self[OF assms(1) this] show ?thesis .
qed

theorem tail_cell_collision_witness:
  "snake ring_game = (5, 5) # [(5, 6), (6, 6), (6, 5)] \<and> 2 \<le> length (snake ring_game) \<and>
   (6, 5) = (5 + fst (direction ring_game), 5 + snd (direction ring_game)) \<and>
   \<not> hits_wall ring_game (6, 5) \<and> (6, 5) = last (snake ring_game) \<and>
   move_snake zero_rng ring_game 0 = Some (Inr (ring_game\<lparr>game_over := True\<rparr>, 0))"
proof -
  have a: "snake ring_game = (5, 5) # [(5, 6), (6, 6), (6, 5)]"
    by (simp add: ring_game_def)
  have b: "2 \<le> length (snake ring_game)" by (simp add: ring_game_def)
  have c: "(6, 5) = (5 + fst (direction ring_game), 5 + snd (direction ring_game))"
    by (simp add: ring_game_def)
  have d: "\<not> hits_wall ring_game (6, 5)" by (simp add: ring_game_def hits_wall_def)
  have e: "(6, 5) = last (snake ring_game)" by (simp add: ring_game_def)
  from tail_cell_collision [OF a b c d e, of zero_rng 0] a b c d e show ?thesis by blast
qed

subsection \<open>Direction commands\<close>

lemma directions_table:
  "directions ''w'' = Some (0, -1)" "directions ''s'' = Some (0, 1)"
  "directions ''a'' = Some (-1, 0)" "directions ''d'' = Some (1, 0)"
  by (simp_all add: directions_def)

lemma directions_None: "directions key = None \<longleftrightarrow> key \<notin> {''w'', ''s'', ''a'', ''d''}"
  by (auto simp add: directions_def)

text \<open>
  Claim C5. For a key of the table \<open>directions\<close> with vector \<open>d\<close>, \<open>update_direction\<close>
  leaves the state as it is when \<open>d\<close> is the negation of the current direction and
  stores \<open>d\<close> as the direction otherwise, touching no other field; a key that is none of
  \<open>w\<close>, \<open>s\<close>, \<open>a\<close>, \<open>d\<close> is not in the table and leaves the state as it is. The table
  maps \<open>w\<close> to up \<open>(0, -1)\<close>, \<open>s\<close> to down \<open>(0, 1)\<close>, \<open>a\<close> to left \<open>(-1, 0)\<close> and \<open>d\<close>
  to right \<open>(1, 0)\<close>.
\<close>

theorem update_direction_rule:
  "(directions key = Some d \<longrightarrow>
      update_direction g key =
        (if d = (- fst (direction g), - snd (direction g)) then g else g\<lparr>direction := d\<rparr>)) \<and>
   (key \<notin> {''w'', ''s'', ''a'', ''d''} \<longrightarrow> update_direction g key = g) \<and>
   (directions key = None \<longleftrightarrow> key \<notin> {''w'', ''s'', ''a'', ''d''}) \<and>
   directions ''w'' = Some (0, -1) \<and> directions ''s'' = Some (0, 1) \<and>
   directions ''a'' = Some (-1, 0) \<and> directions ''d'' = Some (1, 0)"
proof -
  have "update_direction g key =
      (if d = (- fst (direction g), - snd (direction g)) then g else g\<lparr>direction := d\<rparr>)"
    if "directions key = Some d"
  proof -
    have "(fst d * - 1, snd d * - 1) = direction g \<longleftrightarrow>
          d = (- fst (direction g), - snd (direction g))"
      by (cases d; cases "direction g") auto
    with that show ?thesis by (simp add: update_direction_def)
  qed
  moreover have "update_direction g key = g" if "key \<notin> {''w'', ''s'', ''a'', ''d''}"
    using that directions_None[of key] by (simp add: update_direction_def)
  ultimately show ?thesis using directions_None[of key] directions_table by blast
qed

theorem update_direction_rule_witness:
  "directions ''a'' = Some (-1, 0) \<and> update_direction start_game ''a'' = start_game \<and>
   directions ''w'' = Some (0, -1) \<and>
   update_direction start_game ''w'' = start_game\<lparr>direction := (0, -1)\<rparr> \<and>
   ''x'' \<notin> {''w'', ''s'', ''a'', ''d''} \<and> update_direction start_game ''x'' = start_game"
  using update_direction_rule [of "''a''" "(-1, 0)" start_game]
    update_direction_rule [of "''w''" "(0, -1)" start_game]
    update_direction_rule [of "''x''" "(0, 0)" start_game]
  by (simp add: start_game_def)

subsection \<open>Construction\<close>

lemma init_game_returns:
  assumes "3 \<le> w" "3 \<le> h" "attempt rnd w h (i + 2 * n) \<noteq> (w div 2, h div 2)"
  shows "\<exists>g j. init_game rnd w h i = Some (Inr (g, j))"
proof -
  have "attempt rnd w h (i + 2 * n) \<notin> set [(w div 2, h div 2)]" using assms(3) by simp
  then obtain m where m: "attempt rnd w h (i + 2 * m) \<notin> set [(w div 2, h div 2)]"
    "\<forall>k<m. attempt rnd w h (i + 2 * k) \<in> set [(w div 2, h div 2)]"
    using exists_least_iff[of "\<lambda>n. attempt rnd w h (i + 2 * n) \<notin> set [(w div 2, h div 2)]"]
    by blast
  from generate_food_first_free[OF assms(1,2) m] show ?thesis
    by (simp add: init_game_def)
qed

lemma init_start_game: "init_game zero_rng 40 20 0 = Some (Inr (start_game, 2))"
proof -
  have "generate_food zero_rng 40 20 [(40 div 2, 20 div 2)] 0 = Some (Inr ((1, 1), 2))"
    by (subst generate_food_unfold) (simp_all add: attempt_def zero_rng_def)
  then show ?thesis by (simp add: init_game_def start_game_def)
qed

text \<open>
  Claim C10. A game the constructor returns has a snake of one segment at
  \<open>(width // 2, height // 2)\<close>, direction right \<open>(1, 0)\<close>, score 0 and \<open>game_over\<close>
  false, on the board it was asked for; the default construction (40 by 20) puts the
  segment at \<open>(20, 10)\<close>. The constructor does return on a board with an interior when
  some attempt of \<open>generate_food\<close> draws a cell other than that of the snake.
\<close>

theorem fresh_game:
  "(init_game rnd w h i = Some (Inr (g, j)) \<longrightarrow>
      width g = w \<and> height g = h \<and> snake g = [(w div 2, h div 2)] \<and>
      direction g = (1, 0) \<and> score g = 0 \<and> \<not> game_over g) \<and>
   (3 \<le> w \<and> 3 \<le> h \<and> attempt rnd w h (i + 2 * n) \<noteq> (w div 2, h div 2) \<longrightarrow>
      (\<exists>g j. init_game rnd w h i = Some (Inr (g, j))))"
proof (intro conjI impI)
  assume a: "init_game rnd w h i = Some (Inr (g, j))"
  from init_game_result[OF a] have
    "g = \<lparr>width = w, height = h, snake = [(w div 2, h div 2)],
          direction = (1, 0), food = food g, score = 0, game_over = False\<rparr>" by blast
  then have "width g = w" "height g = h" "snake g = [(w div 2, h div 2)]"
    "direction g = (1, 0)" "score g = 0" "\<not> game_over g"
    by (metis game.select_convs)+
  then show "width g = w" "height g = h" "snake g = [(w div 2, h div 2)]"
    "direction g = (1, 0)" "score g = 0" "\<not> game_over g" by blast+
next
  assume "3 \<le> w \<and> 3 \<le> h \<and> attempt rnd w h (i + 2 * n) \<noteq> (w div 2, h div 2)"
  then show "\<exists>g j. init_game rnd w h i = Some (Inr (g, j))"
    using init_game_returns by blast
qed

theorem fresh_game_witness:
  "init_game zero_rng 40 20 0 = Some (Inr (start_game, 2)) \<and>
   width start_game = 40 \<and> height start_game = 20 \<and> snake start_game = [(20, 10)] \<and>
   direction start_game = (1, 0) \<and> score start_game = 0 \<and> \<not> game_over start_game \<and>
   (3::int) \<le> 40 \<and> (3::int) \<le> 20 \<and>
   attempt zero_rng 40 20 (0 + 2 * 0) \<noteq> (40 div 2, 20 div 2) \<and>
   (\<exists>g j. init_game zero_rng 40 20 0 = Some (Inr (g, j)))"
proof -
  have a: "attempt zero_rng 40 20 (0 + 2 * 0) \<noteq> (40 div 2, 20 div 2)"
    by (simp add: attempt_def zero_rng_def)
  from fresh_game [of zero_rng 40 20 0 start_game 2 0] init_start_game a
  show ?thesis by simp
qed

subsection \<open>Steps, the loop of \<open>run\<close>, and what they preserve\<close>

lemma update_direction_other_fields:
  "snake (update_direction g key) = snake g" "food (update_direction g key) = food g"
  "score (update_direction g key) = score g"
  "game_over (update_direction g key) = game_over g"
  "width (update_direction g key) = width g" "height (update_direction g key) = height g"
  by (simp_all add: update_direction_def split: option.splits)

lemma step_distinct: "step g g' \<Longrightarrow> distinct (snake g) \<Longrightarrow> distinct (snake g')"
  by (induction rule: step.induct)
     (simp_all add: update_direction_other_fields move_snake_distinct)

lemma step_food_free:
  "step g g' \<Longrightarrow> food g \<notin> set (snake g) \<Longrightarrow> food g' \<notin> set (snake g')"
  by (induction rule: step.induct)
     (simp_all add: update_direction_other_fields move_snake_food_free)

lemma step_game_over: "step g g' \<Longrightarrow> game_over g \<Longrightarrow> game_over g'"
  by (induction rule: step.induct)
     (simp_all add: update_direction_other_fields move_snake_game_over)

lemma steps_game_over: "step\<^sup>*\<^sup>* g g' \<Longrightarrow> game_over g \<Longrightarrow> game_over g'"
  by (induction rule: rtranclp_induct) (auto intro: step_game_over)

lemma reachable_steps: "step\<^sup>*\<^sup>* g g' \<Longrightarrow> reachable g \<Longrightarrow> reachable g'"
  by (induction rule: rtranclp_induct) (auto intro: reachable_step)

lemma reachable_start_game: "reachable start_game"
  using init_start_game by (rule reachable_init)

text \<open>Every pass of the loop of \<open>run\<close>, and so the loop, is made of steps.\<close>

lemma run_iteration_steps:
  assumes "run_iteration rnd polls g kb i = Some (Inr (quit, g', kb', j))"
  shows "step\<^sup>*\<^sup>* g g'"
proof -
  from assms obtain key kbw where
    pw: "poll_window polls None kb = Some (Inr (key, kbw))"
    and rest: "(if key = Some ''q'' then Some (Inr (True, g, kbw, i))
          else
            let g1 = (if truthy key then update_direction g (the key) else g) in
            (case move_snake rnd g1 i of
               None \<Rightarrow> None
             | Some (Inl e) \<Rightarrow> Some (Inl e)
             | Some (Inr (g2, j)) \<Rightarrow> Some (Inr (False, g2, kbw, j)))) =
          Some (Inr (quit, g', kb', j))"
    unfolding run_iteration_def by (auto split: option.splits sum.splits)
  show ?thesis
  proof (cases "key = Some ''q''")
    case True
    with rest show ?thesis by simp
  next
    case False
    define g1 where "g1 = (if truthy key then update_direction g (the key) else g)"
    have 1: "step\<^sup>*\<^sup>* g g1"
      unfolding g1_def by (auto intro: step_direction)
    from rest False have "move_snake rnd g1 i = Some (Inr (g', j))"
      unfolding g1_def by (auto simp: Let_def split: option.splits sum.splits)
    then have "step g1 g'" by (rule step_move)
    with 1 show ?thesis by simp
  qed
qed

lemma run_loop_steps:
  "run_loop rnd script g kb i = Some (Inr (ended, g', kb', j)) \<Longrightarrow> step\<^sup>*\<^sup>* g g'"
proof (induction script arbitrary: g kb i)
  case Nil
  then show ?case by simp
next
  case (Cons e script)
  obtain typed polls where e: "e = (typed, polls)" by (cases e)
  show ?case
  proof (cases "game_over g")
    case True
    with Cons.prems e show ?thesis by simp
  next
    case False
    with Cons.prems e obtain quit g1 kb1 j1 where
      it: "run_iteration rnd polls g (kb @ typed) i = Some (Inr (quit, g1, kb1, j1))"
      and rest: "(if quit then Some (Inr (True, g1, kb1, j1))
                  else run_loop rnd script g1 kb1 j1) = Some (Inr (ended, g', kb', j))"
      by (auto split: option.splits sum.splits)
    have 1: "step\<^sup>*\<^sup>* g g1" using it by (rule run_iteration_steps)
    show ?thesis
    proof (cases quit)
      case True
      with rest 1 show ?thesis by simp
    next
      case False
      with rest have "run_loop rnd script g1 kb1 j1 = Some (Inr (ended, g', kb', j))" by simp
      from Cons.IH[OF this] 1 show ?thesis by simp
    qed
  qed
qed

lemma run_loop_game_over:
  "game_over g \<Longrightarrow> run_loop rnd script g kb i = Some (Inr (True, g, kb, i))"
  by (cases script) auto

lemma start_game_food: "generate_food zero_rng 40 20 [(20, 10)] 0 = Some (Inr ((1, 1), 2))"
  by (subst generate_food_unfold) (simp_all add: attempt_def zero_rng_def)

lemma wall_game_move:
  "move_snake rnd wall_game i = Some (Inr (wall_game\<lparr>game_over := True\<rparr>, i))"
  by (simp add: move_snake_def wall_game_def hits_wall_def)

lemma wall_game_after:
  "step\<^sup>*\<^sup>* (wall_game\<lparr>game_over := True\<rparr>)
     (wall_game\<lparr>game_over := True, direction := (0, -1), snake := [(8, 4)]\<rparr>)"
proof -
  let ?G = "wall_game\<lparr>game_over := True\<rparr>"
  have "update_direction ?G ''w'' = ?G\<lparr>direction := (0, -1)\<rparr>"
    by (simp add: update_direction_def directions_def wall_game_def)
  then have 1: "step ?G (?G\<lparr>direction := (0, -1)\<rparr>)"
    using step_direction[of ?G "''w''"] by simp
  have "move_snake zero_rng (?G\<lparr>direction := (0, -1)\<rparr>) 0 =
      Some (Inr (?G\<lparr>direction := (0, -1), snake := [(8, 4)]\<rparr>, 0))"
    by (simp add: move_snake_def wall_game_def hits_wall_def)
  then have 2: "step (?G\<lparr>direction := (0, -1)\<rparr>) (?G\<lparr>direction := (0, -1), snake := [(8, 4)]\<rparr>)"
    by (rule step_move)
  from 1 2 show ?thesis by simp
qed

lemma start_game_move:
  "move_snake rnd start_game i = Some (Inr (start_game\<lparr>snake := [(21, 10)]\<rparr>, i))"
  by (simp add: move_snake_def start_game_def hits_wall_def)

lemma ring_game_move:
  "move_snake rnd ring_game i = Some (Inr (ring_game\<lparr>game_over := True\<rparr>, i))"
  by (simp add: move_snake_def ring_game_def hits_wall_def)

subsection \<open>When \<open>draw\<close> returns\<close>

text \<open>
  On a board of at least one row and one column, with the snake and the food on the
  board, every write of \<open>draw\<close> is in range: the grid keeps its shape through the
  loops, and \<open>draw\<close> returns.
\<close>

lemma set_cell_dims:
  assumes "board_dims rows cols b" "0 \<le> y" "y < int rows" "0 \<le> x" "x < int cols"
  shows "\<exists>b'. set_cell b y x c = Inr b' \<and> board_dims rows cols b'"
proof -
  have len: "length b = rows" and row: "\<forall>r \<in> set b. length r = cols"
    using assms(1) by (simp_all add: board_dims_def)
  have y: "py_index (length b) y = Inr (nat y)"
    using assms(2,3) len by (simp add: py_index_def)
  have "nat y < length b" using assms(2,3) len by simp
  then have "b ! nat y \<in> set b" by simp
  then have lr: "length (b ! nat y) = cols" using row by blast
  have x: "py_index (length (b ! nat y)) x = Inr (nat x)"
    using assms(4,5) lr by (simp add: py_index_def)
  have eq: "set_cell b y x c = Inr (b[nat y := (b ! nat y)[nat x := c]])"
    by (simp add: set_cell_def y x)
  have "\<forall>r \<in> set (b[nat y := (b ! nat y)[nat x := c]]). length r = cols"
  proof
    fix r assume "r \<in> set (b[nat y := (b ! nat y)[nat x := c]])"
    then have "r \<in> insert ((b ! nat y)[nat x := c]) (set b)"
      using set_update_subset_insert[of b "nat y" "(b ! nat y)[nat x := c]"] by blast
    then show "length r = cols" using row lr by auto
  qed
  then have "board_dims rows cols (b[nat y := (b ! nat y)[nat x := c]])"
    using len by (simp add: board_dims_def)
  with eq show ?thesis by blast
qed

lemma for_each_invariant:
  assumes "\<And>x s. x \<in> set xs \<Longrightarrow> I s \<Longrightarrow> \<exists>s'. body x s = Inr s' \<and> I s'"
    and "I s"
  shows "\<exists>s'. for_each body xs s = Inr s' \<and> I s'"
  using assms
proof (induction xs arbitrary: s)
  case Nil
  then show ?case by simp
next
  case (Cons x xs)
  from Cons.prems(1)[of x s] Cons.prems(2) obtain s1 where
    s1: "body x s = Inr s1" "I s1" by auto
  have "\<exists>s'. for_each body xs s1 = Inr s' \<and> I s'"
  proof (rule Cons.IH)
    fix y t assume "y \<in> set xs" and "I t"
    then show "\<exists>s'. body y t = Inr s' \<and> I s'"
      using Cons.prems(1)[of y t] by simp
  next
    show "I s1" by (rule s1(2))
  qed
  with s1(1) show ?case by simp
qed

lemma draw_returns:
  assumes w: "1 \<le> width g" and h: "1 \<le> height g"
    and sn: "\<forall>p \<in> set (snake g). on_board g p" and fd: "on_board g (food g)"
  shows "\<exists>b. draw g = Inr b"
proof -
  let ?I = "board_dims (nat (height g)) (nat (width g))"
  let ?b0 = "replicate (nat (height g)) (replicate (nat (width g)) (CHR 0x20))"
  have I0: "?I ?b0" by (simp add: board_dims_def)
  let ?f1 = "\<lambda>x b. case set_cell b 0 x (CHR ''#'') of
                      Inl e \<Rightarrow> Inl e
                    | Inr b' \<Rightarrow> set_cell b' (height g - 1) x (CHR ''#'')"
  have "\<exists>b1. for_each ?f1 (range_py (width g)) ?b0 = Inr b1 \<and> ?I b1"
  proof (rule for_each_invariant[where I = ?I, OF _ I0])
    fix x b assume x: "x \<in> set (range_py (width g))" and b: "?I b"
    then have xr: "0 \<le> x" "x < int (nat (width g))" by (auto simp: range_py_def)
    from set_cell_dims[OF b _ _ xr, of 0 "CHR ''#''"] h obtain b' where
      b': "set_cell b 0 x (CHR ''#'') = Inr b'" "?I b'" by auto
    from set_cell_dims[OF b'(2) _ _ xr, of "height g - 1" "CHR ''#''"] h obtain b'' where
      "set_cell b' (height g - 1) x (CHR ''#'') = Inr b''" "?I b''" by auto
    with b'(1) show "\<exists>s'. ?f1 x b = Inr s' \<and> ?I s'" by simp
  qed
  then obtain b1 where b1: "for_each ?f1 (range_py (width g)) ?b0 = Inr b1" "?I b1" by blast
  let ?f2 = "\<lambda>y b. case set_cell b y 0 (CHR ''#'') of
                           Inl e \<Rightarrow> Inl e
                         | Inr b' \<Rightarrow> set_cell b' y (width g - 1) (CHR ''#'')"
  have "\<exists>b2. for_each ?f2 (range_py (height g)) b1 = Inr b2 \<and> ?I b2"
  proof (rule for_each_invariant[where I = ?I, OF _ b1(2)])
    fix y b assume y: "y \<in> set (range_py (height g))" and b: "?I b"
    then have yr: "0 \<le> y" "y < int (nat (height g))" by (auto simp: range_py_def)
    from set_cell_dims[OF b yr, of 0 "CHR ''#''"] w obtain b' where
      b': "set_cell b y 0 (CHR ''#'') = Inr b'" "?I b'" by auto
    from set_cell_dims[OF b'(2) yr, of "width g - 1" "CHR ''#''"] w obtain b'' where
      "set_cell b' y (width g - 1) (CHR ''#'') = Inr b''" "?I b''" by auto
    with b'(1) show "\<exists>s'. ?f2 y b = Inr s' \<and> ?I s'" by simp
  qed
  then obtain b2 where b2: "for_each ?f2 (range_py (height g)) b1 = Inr b2" "?I b2" by blast
  let ?f3 = "\<lambda>(i :: nat, (x, y)) b.
                           set_cell b y x (if i = 0 then CHR ''@'' else CHR ''*'')"
  have "\<exists>b3. for_each ?f3 (enumerate 0 (snake g)) b2 = Inr b3 \<and> ?I b3"
  proof (rule for_each_invariant[where I = ?I, OF _ b2(2)])
    fix e b assume e: "e \<in> set (enumerate 0 (snake g))" and b: "?I b"
    obtain i x y where ixy: "e = (i, (x, y))" by (cases e) auto
    with e have "i < length (snake g)" "snake g ! i = (x, y)"
      by (auto simp: in_set_enumerate_eq)
    then have "(x, y) \<in> set (snake g)" using nth_mem by metis
    with sn have "on_board g (x, y)" by blast
    then have r: "0 \<le> y" "y < int (nat (height g))" "0 \<le> x" "x < int (nat (width g))"
      by (auto simp: on_board_def)
    from set_cell_dims[OF b r] ixy show "\<exists>s'. ?f3 e b = Inr s' \<and> ?I s'" by simp
  qed
  then obtain b3 where b3: "for_each ?f3 (enumerate 0 (snake g)) b2 = Inr b3" "?I b3" by blast
  have r: "0 \<le> snd (food g)" "snd (food g) < int (nat (height g))"
    "0 \<le> fst (food g)" "fst (food g) < int (nat (width g))"
    using fd by (auto simp: on_board_def)
  from set_cell_dims[OF b3(2) r, of "CHR ''$''"] obtain b4 where
    "set_cell b3 (snd (food g)) (fst (food g)) (CHR ''$'') = Inr b4" by blast
  then show ?thesis
    by (simp only: draw_def Let_def b1(1) b2(1) b3(1) sum.case) blast
qed

subsection \<open>When \<open>generate_food\<close> returns\<close>

text \<open>
  The scanning tape is a fair source from every even cursor; and on a fair source, with
  a free cell in the interior, the retry loop ends at the first free attempt.
\<close>

lemma scan_rng_attempt:
  assumes "3 \<le> w" and "3 \<le> h"
  shows "attempt (scan_rng (nat (w - 2))) w h (2 * N) =
           (1 + int (N mod nat (w - 2)), 1 + int ((N div nat (w - 2)) mod nat (h - 2)))"
proof -
  have c: "int (nat (w - 2)) = w - 2" and r: "int (nat (h - 2)) = h - 2"
    using assms by simp_all
  have 1: "scan_rng (nat (w - 2)) (2 * N) = N" by (simp add: scan_rng_def)
  have 2: "scan_rng (nat (w - 2)) (2 * N + 1) = N div nat (w - 2)"
    by (simp add: scan_rng_def)
  have "int (N mod nat (w - 2)) = int N mod int (nat (w - 2))"
    by (rule zmod_int)
  then have "int N mod (w - 2) = int (N mod nat (w - 2))"
    unfolding c by simp
  moreover have "int ((N div nat (w - 2)) mod nat (h - 2)) =
      int (N div nat (w - 2)) mod int (nat (h - 2))"
    by (rule zmod_int)
  then have "int (N div nat (w - 2)) mod (h - 2) = int ((N div nat (w - 2)) mod nat (h - 2))"
    unfolding r by simp
  ultimately show ?thesis
    unfolding attempt_def 1 2 by simp
qed

lemma scan_rng_fair:
  assumes "3 \<le> w" and "3 \<le> h"
  shows "fair_source (scan_rng (nat (w - 2))) w h (2 * t)"
  unfolding fair_source_def
proof (intro allI impI)
  fix q assume q: "interior w h q"
  define c where "c = nat (w - 2)"
  define r where "r = nat (h - 2)"
  define a where "a = nat (fst q - 1)"
  define b where "b = nat (snd q - 1)"
  define N where "N = a + c * (b + r * t)"
  have c0: "0 < c" and r0: "0 < r" using assms by (simp_all add: c_def r_def)
  have a: "a < c" "int a = fst q - 1" and b: "b < r" "int b = snd q - 1"
    using q by (auto simp add: interior_def a_def b_def c_def r_def)
  have m: "N mod c = a" using a(1) by (simp add: N_def)
  have d: "N div c = b + r * t" using a(1) c0 by (simp add: N_def)
  have m2: "(N div c) mod r = b" using b(1) by (simp add: d)
  have "1 * t \<le> (c * r) * t" using c0 r0 by (intro mult_le_mono1) simp
  then have "t \<le> c * (r * t)" by (simp add: mult.assoc)
  then have tN: "t \<le> N" unfolding N_def distrib_left by linarith
  have "attempt (scan_rng (nat (w - 2))) w h (2 * N) = (1 + int a, 1 + int b)"
    using scan_rng_attempt[OF assms, of N] m m2 by (simp add: c_def r_def)
  also have "\<dots> = q" using a(2) b(2) by (cases q) simp
  finally have "attempt (scan_rng (nat (w - 2))) w h (2 * t + 2 * (N - t)) = q"
    using tN by (simp add: algebra_simps)
  then show "\<exists>n. attempt (scan_rng (nat (w - 2))) w h (2 * t + 2 * n) = q" by blast
qed

lemma generate_food_fair:
  assumes "interior w h p" and "p \<notin> set sn" and "fair_source rnd w h i"
  shows "\<exists>n. (\<forall>m<n. attempt rnd w h (i + 2 * m) \<in> set sn) \<and>
             attempt rnd w h (i + 2 * n) \<notin> set sn \<and>
             generate_food rnd w h sn i =
               Some (Inr (attempt rnd w h (i + 2 * n), i + 2 * n + 2))"
proof -
  have wh: "3 \<le> w" "3 \<le> h" using assms(1) by (auto simp add: interior_def)
  from assms(1,3) obtain k where "attempt rnd w h (i + 2 * k) = p"
    unfolding fair_source_def by blast
  with assms(2) have "\<exists>n. attempt rnd w h (i + 2 * n) \<notin> set sn" by auto
  then obtain n where n: "attempt rnd w h (i + 2 * n) \<notin> set sn"
    "\<forall>m<n. attempt rnd w h (i + 2 * m) \<in> set sn"
    using exists_least_iff[of "\<lambda>n. attempt rnd w h (i + 2 * n) \<notin> set sn"] by blast
  from generate_food_first_free[OF wh n] n show ?thesis by blast
qed



subsection \<open>A game on the 4 by 4 board\<close>

text \<open>
  The game of the states \<open>tiny_start\<close>, \<open>tiny_two\<close>, \<open>tiny_three\<close> and \<open>full_game\<close>, on
  the tape \<open>scan_rng 2\<close> from cursor 0: each state is reached from the one before by the
  steps named in the proofs. In \<open>full_game\<close> the snake and the food fill the interior,
  and the tick that eats the food does not return, whatever the tape.
\<close>

lemma tiny_attempts:
  "attempt (scan_rng 2) 4 4 0 = (1, 1)" "attempt (scan_rng 2) 4 4 2 = (2, 1)"
  "attempt (scan_rng 2) 4 4 4 = (1, 2)" "attempt (scan_rng 2) 4 4 6 = (2, 2)"
  by (simp_all add: attempt_def scan_rng_def)

lemma tiny_food_start: "generate_food (scan_rng 2) 4 4 [(2, 2)] 0 = Some (Inr ((1, 1), 2))"
  by (subst generate_food_unfold) (simp_all add: tiny_attempts)

lemma tiny_food_two:
  "generate_food (scan_rng 2) 4 4 [(1, 1), (2, 1)] 2 = Some (Inr ((1, 2), 6))"
proof -
  have "generate_food (scan_rng 2) 4 4 [(1, 1), (2, 1)] 2 =
        generate_food (scan_rng 2) 4 4 [(1, 1), (2, 1)] (2 + 2)"
    by (subst generate_food_unfold) (simp_all add: tiny_attempts)
  also have "\<dots> = Some (Inr ((1, 2), 6))"
    by (subst generate_food_unfold) (simp_all add: tiny_attempts)
  finally show ?thesis .
qed

lemma tiny_food_three:
  "generate_food (scan_rng 2) 4 4 [(1, 2), (1, 1), (2, 1)] 6 = Some (Inr ((2, 2), 8))"
  by (subst generate_food_unfold) (simp_all add: tiny_attempts)

lemma tiny_start_init: "init_game (scan_rng 2) 4 4 0 = Some (Inr (tiny_start, 2))"
  using tiny_food_start by (simp add: init_game_def tiny_start_def)

lemma tiny_two_move:
  "move_snake (scan_rng 2)
     (update_direction (tiny_start\<lparr>direction := (0, -1), snake := [(2, 1)]\<rparr>) ''a'') 2 =
     Some (Inr (tiny_two, 6))"
  using tiny_food_two
  by (simp add: move_snake_def update_direction_def directions_def tiny_start_def tiny_two_def
      hits_wall_def)

lemma tiny_three_move:
  "move_snake (scan_rng 2) (update_direction tiny_two ''s'') 6 = Some (Inr (tiny_three, 8))"
  using tiny_food_three
  by (simp add: move_snake_def update_direction_def directions_def tiny_two_def tiny_three_def
      hits_wall_def)

lemma full_game_turn: "update_direction tiny_three ''d'' = full_game"
  by (simp add: update_direction_def directions_def tiny_three_def full_game_def)

lemma reachable_tiny_start: "reachable tiny_start"
  using tiny_start_init by (rule reachable_init)

lemma reachable_tiny_two: "reachable tiny_two"
proof -
  have "update_direction tiny_start ''w'' = tiny_start\<lparr>direction := (0, -1)\<rparr>"
    by (simp add: update_direction_def directions_def tiny_start_def)
  then have 1: "step tiny_start (tiny_start\<lparr>direction := (0, -1)\<rparr>)"
    using step_direction[of tiny_start "''w''"] by simp
  have "move_snake (scan_rng 2) (tiny_start\<lparr>direction := (0, -1)\<rparr>) 2 =
      Some (Inr (tiny_start\<lparr>direction := (0, -1), snake := [(2, 1)]\<rparr>, 2))"
    by (simp add: move_snake_def tiny_start_def hits_wall_def)
  then have 2: "step (tiny_start\<lparr>direction := (0, -1)\<rparr>)
      (tiny_start\<lparr>direction := (0, -1), snake := [(2, 1)]\<rparr>)"
    by (rule step_move)
  have 3: "step (tiny_start\<lparr>direction := (0, -1), snake := [(2, 1)]\<rparr>)
      (update_direction (tiny_start\<lparr>direction := (0, -1), snake := [(2, 1)]\<rparr>) ''a'')"
    by (rule step_direction)
  have 4: "step (update_direction (tiny_start\<lparr>direction := (0, -1), snake := [(2, 1)]\<rparr>) ''a'')
      tiny_two"
    using tiny_two_move by (rule step_move)
  from reachable_tiny_start 1 2 3 4 show ?thesis
    by (blast intro: reachable_step)
qed

lemma reachable_tiny_three: "reachable tiny_three"
proof -
  have 1: "step tiny_two (update_direction tiny_two ''s'')" by (rule step_direction)
  have 2: "step (update_direction tiny_two ''s'') tiny_three"
    using tiny_three_move by (rule step_move)
  from reachable_tiny_two 1 2 show ?thesis by (blast intro: reachable_step)
qed

lemma reachable_full_game: "reachable full_game"
  using reachable_tiny_three step_direction[of tiny_three "''d''"]
  unfolding full_game_turn by (rule reachable_step)

lemma full_board_never_returns:
  "generate_food rnd 4 4 [(2, 2), (1, 2), (1, 1), (2, 1)] i = None"
proof (rule generate_food_never_free)
  show "\<forall>n. attempt rnd 4 4 (i + 2 * n) \<in> set [(2, 2), (1, 2), (1, 1), (2, 1)]"
  proof
    fix n
    have "interior 4 4 (attempt rnd 4 4 (i + 2 * n))" by (rule attempt_interior) simp_all
    then show "attempt rnd 4 4 (i + 2 * n) \<in> set [(2, 2), (1, 2), (1, 1), (2, 1)]"
      by (cases "attempt rnd 4 4 (i + 2 * n)") (auto simp add: interior_def)
  qed
qed simp_all

lemma full_game_move: "move_snake rnd full_game i = None"
  using full_board_never_returns[of rnd i]
  by (simp add: move_snake_def full_game_def hits_wall_def)

lemma tiny_fair: "fair_source (scan_rng 2) 4 4 (2 * t)"
  using scan_rng_fair[of 4 4 t] by simp

subsection \<open>Invariants of the reachable states\<close>

text \<open>
  Claim C2. In every reachable state the segments of the snake are pairwise distinct
  (with \<open>game_over\<close> false or true), and every tick that returns keeps them distinct,
  whether or not it sets \<open>game_over\<close>.
\<close>

theorem snake_segments_distinct:
  "(reachable g \<longrightarrow> distinct (snake g)) \<and>
   (distinct (snake g) \<and> move_snake rnd g i = Some (Inr (g', j)) \<longrightarrow> distinct (snake g'))"
proof (intro conjI impI)
  assume "reachable g"
  then show "distinct (snake g)"
  proof (induction rule: reachable.induct)
    case (reachable_init rnd w h i g j)
    from init_game_result[OF this] have "snake g = [(w div 2, h div 2)]"
      by (metis game.select_convs(3))
    then show ?case by simp
  next
    case (reachable_step g g')
    then show ?case by (simp add: step_distinct)
  qed
next
  assume "distinct (snake g) \<and> move_snake rnd g i = Some (Inr (g', j))"
  then show "distinct (snake g')" using move_snake_distinct by blast
qed

theorem snake_segments_distinct_witness:
  "reachable tiny_three \<and> distinct (snake tiny_three) \<and>
   snake tiny_three = [(1, 2), (1, 1), (2, 1)] \<and>
   distinct (snake (update_direction tiny_two ''s'')) \<and>
   move_snake (scan_rng 2) (update_direction tiny_two ''s'') 6 = Some (Inr (tiny_three, 8)) \<and>
   distinct (snake ring_game) \<and>
   move_snake zero_rng ring_game 0 = Some (Inr (ring_game\<lparr>game_over := True\<rparr>, 0)) \<and>
   distinct (snake (ring_game\<lparr>game_over := True\<rparr>))"
proof -
  have a: "distinct (snake (update_direction tiny_two ''s''))"
    by (simp add: update_direction_other_fields tiny_two_def)
  have b: "distinct (snake ring_game)" by (simp add: ring_game_def)
  have c: "snake tiny_three = [(1, 2), (1, 1), (2, 1)]" by (simp add: tiny_three_def)
  from snake_segments_distinct [of tiny_three] reachable_tiny_three
  have 1: "distinct (snake tiny_three)" by blast
  from snake_segments_distinct
    [of "update_direction tiny_two ''s''" "scan_rng 2" 6 tiny_three 8] a tiny_three_move
  have 2: "distinct (snake tiny_three)" by blast
  from snake_segments_distinct
    [of ring_game zero_rng 0 "ring_game\<lparr>game_over := True\<rparr>" 0] b ring_game_move
  have 3: "distinct (snake (ring_game\<lparr>game_over := True\<rparr>))" by blast
  from reachable_tiny_three 1 c a tiny_three_move b ring_game_move[of zero_rng 0] 3
  show ?thesis by blast
qed

text \<open>
  Claim C6. A cell that \<open>generate_food\<close> returns lies in the interior
  \<open>[1, width-2] \<times> [1, height-2]\<close> and is not a segment of the snake; and in every
  reachable state the food is not on the snake.
\<close>

theorem food_off_snake:
  "(generate_food rnd w h sn i = Some (Inr (p, j)) \<longrightarrow> interior w h p \<and> p \<notin> set sn) \<and>
   (reachable g \<longrightarrow> food g \<notin> set (snake g))"
proof (intro conjI impI)
  assume a: "generate_food rnd w h sn i = Some (Inr (p, j))"
  from generate_food_result[OF a] show "interior w h p" "p \<notin> set sn" by blast+
next
  assume "reachable g"
  then show "food g \<notin> set (snake g)"
  proof (induction rule: reachable.induct)
    case (reachable_init rnd w h i g j)
    from init_game_result[OF this] have
      "generate_food rnd w h [(w div 2, h div 2)] i = Some (Inr (food g, j))"
      "snake g = [(w div 2, h div 2)]"
      by (blast, metis game.select_convs(3))
    with generate_food_result[of rnd w h "[(w div 2, h div 2)]" i "food g" j]
    show ?case by simp
  next
    case (reachable_step g g')
    then show ?case by (simp add: step_food_free)
  qed
qed

theorem food_off_snake_witness:
  "generate_food zero_rng 40 20 [(20, 10)] 0 = Some (Inr ((1, 1), 2)) \<and>
   interior 40 20 (1, 1) \<and> (1, 1) \<notin> set [(20, 10) :: pos] \<and>
   reachable start_game \<and> food start_game \<notin> set (snake start_game)"
  using food_off_snake [of zero_rng 40 20 "[(20, 10)]" 0 "(1, 1)" 2 start_game]
    start_game_food reachable_start_game
  by blast

text \<open>
  Claim C8. The constructor returns \<open>game_over\<close> false. \<open>update_direction\<close> never
  changes the flag, and a tick that turns it from false to true is a collision of the
  new head with the wall or with the snake, and changes nothing else. Once the flag is
  true, no sequence of steps makes it false, and the loop of \<open>run\<close> makes no further pass:
  it is left at once, the state, the pending keys and the random tape untouched.
\<close>

theorem game_over_absorbing:
  "(init_game rnd w h i = Some (Inr (g0, j0)) \<longrightarrow> \<not> game_over g0) \<and>
   game_over (update_direction g key) = game_over g \<and>
   (move_snake rnd g i = Some (Inr (g', j)) \<and> \<not> game_over g \<and> game_over g' \<longrightarrow>
      (\<exists>hx hy t. snake g = (hx, hy) # t \<and>
         (hits_wall g (hx + fst (direction g), hy + snd (direction g)) \<or>
          (hx + fst (direction g), hy + snd (direction g)) \<in> set (snake g))) \<and>
      g' = g\<lparr>game_over := True\<rparr>) \<and>
   (game_over g \<and> step\<^sup>*\<^sup>* g g'' \<longrightarrow> game_over g'') \<and>
   (game_over g \<longrightarrow> run_loop rnd script g kb i = Some (Inr (True, g, kb, i)))"
proof (intro conjI impI)
  assume "init_game rnd w h i = Some (Inr (g0, j0))"
  from init_game_result[OF this] show "\<not> game_over g0"
    by (metis game.select_convs(7))
next
  show "game_over (update_direction g key) = game_over g"
    by (rule update_direction_other_fields)
next
  assume a: "move_snake rnd g i = Some (Inr (g', j)) \<and> \<not> game_over g \<and> game_over g'"
  then have mv: "move_snake rnd g i = Some (Inr (g', j))" by simp
  from mv have "(\<exists>hx hy t. snake g = (hx, hy) # t \<and>
         (hits_wall g (hx + fst (direction g), hy + snd (direction g)) \<or>
          (hx + fst (direction g), hy + snd (direction g)) \<in> set (snake g))) \<and>
      g' = g\<lparr>game_over := True\<rparr>"
  proof (cases rule: move_snake_cases)
    case collision
    then show ?thesis by blast
  next
    case eat
    with a show ?thesis by simp
  next
    case plain
    with a show ?thesis by simp
  qed
  then show "\<exists>hx hy t. snake g = (hx, hy) # t \<and>
         (hits_wall g (hx + fst (direction g), hy + snd (direction g)) \<or>
          (hx + fst (direction g), hy + snd (direction g)) \<in> set (snake g))"
    and "g' = g\<lparr>game_over := True\<rparr>" by blast+
next
  assume "game_over g \<and> step\<^sup>*\<^sup>* g g''"
  then show "game_over g''" using steps_game_over by blast
next
  assume "game_over g"
  then show "run_loop rnd script g kb i = Some (Inr (True, g, kb, i))"
    by (rule run_loop_game_over)
qed

theorem game_over_absorbing_witness:
  "init_game zero_rng 40 20 0 = Some (Inr (start_game, 2)) \<and> \<not> game_over start_game \<and>
   move_snake zero_rng wall_game 0 = Some (Inr (wall_game\<lparr>game_over := True\<rparr>, 0)) \<and>
   \<not> game_over wall_game \<and> game_over (wall_game\<lparr>game_over := True\<rparr>) \<and>
   (\<exists>hx hy t. snake wall_game = (hx, hy) # t \<and>
      (hits_wall wall_game (hx + fst (direction wall_game), hy + snd (direction wall_game)) \<or>
       (hx + fst (direction wall_game), hy + snd (direction wall_game)) \<in> set (snake wall_game))) \<and>
   step\<^sup>*\<^sup>* (wall_game\<lparr>game_over := True\<rparr>)
     (wall_game\<lparr>game_over := True, direction := (0, -1), snake := [(8, 4)]\<rparr>) \<and>
   game_over (wall_game\<lparr>game_over := True, direction := (0, -1), snake := [(8, 4)]\<rparr>) \<and>
   run_loop zero_rng [(''w'', 20)] (wall_game\<lparr>game_over := True\<rparr>) [] 0 =
     Some (Inr (True, wall_game\<lparr>game_over := True\<rparr>, [], 0))"
proof -
  have a: "\<not> game_over wall_game" by (simp add: wall_game_def)
  have b: "game_over (wall_game\<lparr>game_over := True\<rparr>)" by simp
  from game_over_absorbing [of zero_rng 40 20 0 start_game 2] init_start_game
  have 1: "\<not> game_over start_game" by blast
  from game_over_absorbing
    [of zero_rng _ _ 0 _ _ wall_game _ "wall_game\<lparr>game_over := True\<rparr>" 0]
    wall_game_move [of zero_rng 0] a b
  have 2: "\<exists>hx hy t. snake wall_game = (hx, hy) # t \<and>
      (hits_wall wall_game (hx + fst (direction wall_game), hy + snd (direction wall_game)) \<or>
       (hx + fst (direction wall_game), hy + snd (direction wall_game)) \<in> set (snake wall_game))"
    by blast
  from game_over_absorbing
    [of zero_rng _ _ 0 _ _ "wall_game\<lparr>game_over := True\<rparr>" _ _ _
        "wall_game\<lparr>game_over := True, direction := (0, -1), snake := [(8, 4)]\<rparr>"
        "[(''w'', 20)]" "[]"]
    b wall_game_after
  have 3: "game_over (wall_game\<lparr>game_over := True, direction := (0, -1), snake := [(8, 4)]\<rparr>)"
    and 4: "run_loop zero_rng [(''w'', 20)] (wall_game\<lparr>game_over := True\<rparr>) [] 0 =
     Some (Inr (True, wall_game\<lparr>game_over := True\<rparr>, [], 0))"
    by blast+
  from init_start_game 1 wall_game_move [of zero_rng 0] a b 2 wall_game_after 3 4
  show ?thesis by blast
qed

subsection \<open>Moves that are not collisions\<close>

text \<open>
  Claim C4, as amended. With the new head inside the border and off the snake: when it
  is the food cell, every tick that returns has put the new head in front of the whole
  snake (length plus one), added 10 to the score and stored as food the cell
  \<open>generate_food\<close> returned for the grown snake, a cell off that snake; and the tick does
  return, the new food in the interior, when some interior cell is free of the grown
  snake and the random source is fair. When the new head is not the food cell, the tick
  returns with the new head in front and the last segment removed: length, score and
  food are unchanged.
\<close>

theorem food_move_and_plain_move:
  assumes "snake g = (hx, hy) # t"
    and "nh = (hx + fst (direction g), hy + snd (direction g))"
    and "\<not> hits_wall g nh" and "nh \<notin> set (snake g)"
  shows "(nh = food g \<longrightarrow>
            (\<forall>g' j. move_snake rnd g i = Some (Inr (g', j)) \<longrightarrow>
               snake g' = nh # snake g \<and> length (snake g') = length (snake g) + 1 \<and>
               score g' = score g + 10 \<and>
               generate_food rnd (width g) (height g) (snake g') i = Some (Inr (food g', j)) \<and>
               food g' \<notin> set (snake g')) \<and>
            (interior (width g) (height g) p \<and> p \<notin> set (nh # snake g) \<and>
             fair_source rnd (width g) (height g) i \<longrightarrow>
               (\<exists>g' j. move_snake rnd g i = Some (Inr (g', j)) \<and>
                  snake g' = nh # snake g \<and> length (snake g') = length (snake g) + 1 \<and>
                  score g' = score g + 10 \<and>
                  interior (width g) (height g) (food g') \<and>
                  food g' \<notin> set (snake g')))) \<and>
         (nh \<noteq> food g \<longrightarrow>
            (\<exists>g'. move_snake rnd g i = Some (Inr (g', i)) \<and>
               snake g' = nh # butlast (snake g) \<and> length (snake g') = length (snake g) \<and>
               score g' = score g \<and> food g' = food g))"
proof (intro conjI impI allI)
  fix g' j
  assume eq: "nh = food g" and mv: "move_snake rnd g i = Some (Inr (g', j))"
  from mv obtain f where
    f: "generate_food rnd (width g) (height g) (nh # snake g) i = Some (Inr (f, j))"
    and g': "g' = g\<lparr>snake := nh # snake g, score := score g + 10, food := f\<rparr>"
    unfolding move_snake_eat[OF assms eq, of rnd i]
    by (auto split: option.splits sum.splits)
  show "snake g' = nh # snake g" using g' by simp
  show "length (snake g') = length (snake g) + 1" using g' by simp
  show "score g' = score g + 10" using g' by simp
  show "generate_food rnd (width g) (height g) (snake g') i = Some (Inr (food g', j))"
    using g' f by simp
  show "food g' \<notin> set (snake g')" using generate_food_result[OF f] g' by simp
next
  assume eq: "nh = food g"
    and free: "interior (width g) (height g) p \<and> p \<notin> set (nh # snake g) \<and>
               fair_source rnd (width g) (height g) i"
  from free generate_food_fair[of "width g" "height g" p "nh # snake g" rnd i]
  obtain n where n: "attempt rnd (width g) (height g) (i + 2 * n) \<notin> set (nh # snake g)"
    "generate_food rnd (width g) (height g) (nh # snake g) i =
       Some (Inr (attempt rnd (width g) (height g) (i + 2 * n), i + 2 * n + 2))"
    by blast
  have "3 \<le> width g" "3 \<le> height g" using free by (auto simp add: interior_def)
  then have int: "interior (width g) (height g) (attempt rnd (width g) (height g) (i + 2 * n))"
    by (rule attempt_interior)
  let ?g' = "g\<lparr>snake := nh # snake g, score := score g + 10,
                food := attempt rnd (width g) (height g) (i + 2 * n)\<rparr>"
  have "move_snake rnd g i = Some (Inr (?g', i + 2 * n + 2))"
    unfolding move_snake_eat[OF assms eq, of rnd i] n(2) by simp
  moreover have "snake ?g' = nh # snake g" "length (snake ?g') = length (snake g) + 1"
    "score ?g' = score g + 10" "interior (width g) (height g) (food ?g')"
    "food ?g' \<notin> set (snake ?g')"
    using n(1) int by simp_all
  ultimately show "\<exists>g' j. move_snake rnd g i = Some (Inr (g', j)) \<and>
                  snake g' = nh # snake g \<and> length (snake g') = length (snake g) + 1 \<and>
                  score g' = score g + 10 \<and>
                  interior (width g) (height g) (food g') \<and>
                  food g' \<notin> set (snake g')"
    by blast
next
  assume ne: "nh \<noteq> food g"
  have "length (nh # butlast (snake g)) = length (snake g)" using assms(1) by simp
  with move_snake_plain[OF assms ne, of rnd i]
  show "\<exists>g'. move_snake rnd g i = Some (Inr (g', i)) \<and>
               snake g' = nh # butlast (snake g) \<and> length (snake g') = length (snake g) \<and>
               score g' = score g \<and> food g' = food g"
    by simp
qed

theorem food_move_and_plain_move_witness:
  "snake (update_direction tiny_two ''s'') = (1, 1) # [(2, 1)] \<and>
   (1, 2) = (1 + fst (direction (update_direction tiny_two ''s'')),
             1 + snd (direction (update_direction tiny_two ''s''))) \<and>
   \<not> hits_wall (update_direction tiny_two ''s'') (1, 2) \<and>
   (1, 2) \<notin> set (snake (update_direction tiny_two ''s'')) \<and>
   (1, 2) = food (update_direction tiny_two ''s'') \<and>
   interior (width (update_direction tiny_two ''s''))
     (height (update_direction tiny_two ''s'')) (2, 2) \<and>
   (2, 2) \<notin> set ((1, 2) # snake (update_direction tiny_two ''s'')) \<and>
   fair_source (scan_rng 2) (width (update_direction tiny_two ''s''))
     (height (update_direction tiny_two ''s'')) 6 \<and>
   move_snake (scan_rng 2) (update_direction tiny_two ''s'') 6 = Some (Inr (tiny_three, 8)) \<and>
   length (snake tiny_three) = length (snake (update_direction tiny_two ''s'')) + 1 \<and>
   score tiny_three = score (update_direction tiny_two ''s'') + 10 \<and>
   food tiny_three \<notin> set (snake tiny_three) \<and>
   snake start_game = (20, 10) # [] \<and>
   (21, 10) = (20 + fst (direction start_game), 10 + snd (direction start_game)) \<and>
   \<not> hits_wall start_game (21, 10) \<and> (21, 10) \<notin> set (snake start_game) \<and>
   (21, 10) \<noteq> food start_game \<and>
   (\<exists>g'. move_snake zero_rng start_game 2 = Some (Inr (g', 2)) \<and>
      snake g' = (21, 10) # butlast (snake start_game) \<and>
      length (snake g') = length (snake start_game) \<and>
      score g' = score start_game \<and> food g' = food start_game)"
proof -
  let ?g = "update_direction tiny_two ''s''"
  have g: "?g = tiny_two\<lparr>direction := (0, 1)\<rparr>"
    by (simp add: update_direction_def directions_def tiny_two_def)
  have a: "snake ?g = (1, 1) # [(2, 1)]"
    "(1, 2) = (1 + fst (direction ?g), 1 + snd (direction ?g))"
    "\<not> hits_wall ?g (1, 2)" "(1, 2) \<notin> set (snake ?g)"
    unfolding g by (simp_all add: tiny_two_def hits_wall_def)
  have e: "(1, 2) = food ?g" unfolding g by (simp add: tiny_two_def)
  have wh: "width ?g = 4" "height ?g = 4" unfolding g by (simp_all add: tiny_two_def)
  have f: "interior (width ?g) (height ?g) (2, 2)" unfolding wh by (simp add: interior_def)
  have f2: "(2, 2) \<notin> set ((1, 2) # snake ?g)" unfolding g by (simp add: tiny_two_def)
  have f3: "fair_source (scan_rng 2) (width ?g) (height ?g) 6"
    unfolding wh using tiny_fair[of 3] by simp
  from food_move_and_plain_move [OF a, of "scan_rng 2" 6 "(2, 2)"] e tiny_three_move
  have 1: "length (snake tiny_three) = length (snake ?g) + 1 \<and>
      score tiny_three = score ?g + 10 \<and> food tiny_three \<notin> set (snake tiny_three)"
    by blast
  have b: "snake start_game = (20, 10) # []"
    "(21, 10) = (20 + fst (direction start_game), 10 + snd (direction start_game))"
    "\<not> hits_wall start_game (21, 10)" "(21, 10) \<notin> set (snake start_game)"
    by (simp_all add: start_game_def hits_wall_def)
  have ne: "(21, 10) \<noteq> food start_game" by (simp add: start_game_def)
  from food_move_and_plain_move [OF b, of zero_rng 2] ne
  have 2: "\<exists>g'. move_snake zero_rng start_game 2 = Some (Inr (g', 2)) \<and>
      snake g' = (21, 10) # butlast (snake start_game) \<and>
      length (snake g') = length (snake start_game) \<and>
      score g' = score start_game \<and> food g' = food start_game" by blast
  from a e f f2 f3 tiny_three_move 1 b ne 2 show ?thesis by blast
qed

text \<open>
  Without a free cell the first half of the claim as first stated fails. In
  \<open>full_game\<close>, a state the 4 by 4 game reaches, the new head \<open>(2, 2)\<close> is inside the
  border, off the snake and on the food, and the tick on the fair tape \<open>scan_rng 2\<close>
  does not return: the grown snake covers the interior.
\<close>

theorem food_move_full_board_counterexample:
  "snake full_game = (1, 2) # [(1, 1), (2, 1)] \<and>
   (2, 2) = (1 + fst (direction full_game), 2 + snd (direction full_game)) \<and>
   \<not> hits_wall full_game (2, 2) \<and> (2, 2) \<notin> set (snake full_game) \<and>
   (2, 2) = food full_game \<and> \<not> game_over full_game \<and> reachable full_game \<and>
   fair_source (scan_rng 2) 4 4 8 \<and>
   move_snake (scan_rng 2) full_game 8 = None"
proof -
  have "snake full_game = (1, 2) # [(1, 1), (2, 1)]"
    "(2, 2) = (1 + fst (direction full_game), 2 + snd (direction full_game))"
    "\<not> hits_wall full_game (2, 2)" "(2, 2) \<notin> set (snake full_game)"
    "(2, 2) = food full_game" "\<not> game_over full_game"
    by (simp_all add: full_game_def hits_wall_def)
  moreover have "fair_source (scan_rng 2) 4 4 8" using tiny_fair[of 4] by simp
  ultimately show ?thesis using reachable_full_game full_game_move by blast
qed

subsection \<open>The input window\<close>

lemma get_input_w: "get_input (CHR ''w'' # rest) = Some (Inr (Some ''w'', rest))"
  by (simp add: get_input_def decode_utf8_def lower_def lower_char_def)

lemma get_input_unknown_arrow:
  "get_input (CHR 0xE0 # CHR ''Z'' # rest) = Some (Inr (None, rest))"
  by (simp add: get_input_def)

lemma poll_window_after_idle:
  assumes "idle_polls m kb = Some kbm" and "get_input kbm = Some (Inr (Some s, kb'))"
    and "s \<noteq> []" and "m < n"
  shows "poll_window n key kb = Some (Inr (Some s, kb'))"
  using assms(1,4)
proof (induction m arbitrary: n kb key)
  case 0
  then obtain n' where n: "n = Suc n'" by (cases n) auto
  from 0 have "kbm = kb" by simp
  with assms(2,3) show ?case unfolding n by (simp add: truthy_def)
next
  case (Suc m)
  then obtain n' where n: "n = Suc n'" and m: "m < n'" by (cases n) auto
  from Suc.prems(1) obtain k0 kb1 where
    g: "get_input kb = Some (Inr (k0, kb1))" and f: "\<not> truthy k0"
    and rest: "idle_polls m kb1 = Some kbm"
    by (auto split: option.splits sum.splits if_splits)
  have "poll_window n key kb = poll_window n' k0 kb1"
    unfolding n using g f by simp
  also have "\<dots> = Some (Inr (Some s, kb'))" using rest m by (rule Suc.IH)
  finally show ?case .
qed

lemma poll_window_all_idle:
  "idle_polls n kb = Some kbn \<Longrightarrow> \<not> truthy key \<Longrightarrow>
   \<exists>k. \<not> truthy k \<and> poll_window n key kb = Some (Inr (k, kbn))"
proof (induction n arbitrary: kb key)
  case 0
  then show ?case by simp
next
  case (Suc n)
  from Suc.prems(1) obtain k0 kb1 where
    g: "get_input kb = Some (Inr (k0, kb1))" and f: "\<not> truthy k0"
    and rest: "idle_polls n kb1 = Some kbn"
    by (auto split: option.splits sum.splits if_splits)
  from Suc.IH[OF rest f] g f show ?case by simp
qed

lemma run_iteration_key:
  assumes "draw g = Inr board" and "poll_window n None kb = Some (Inr (Some s, kb'))"
    and "s \<noteq> []"
  shows "run_iteration rnd n g kb i =
           (if s = ''q'' then Some (Inr (True, g, kb', i))
            else (case move_snake rnd (update_direction g s) i of
                    None \<Rightarrow> None
                  | Some (Inl e) \<Rightarrow> Some (Inl e)
                  | Some (Inr (g2, j)) \<Rightarrow> Some (Inr (False, g2, kb', j))))"
  unfolding run_iteration_def using assms by (simp add: truthy_def Let_def)

lemma run_iteration_no_key:
  assumes "draw g = Inr board" and "poll_window n None kb = Some (Inr (k, kb'))"
    and "\<not> truthy k"
  shows "run_iteration rnd n g kb i =
           (case move_snake rnd g i of
              None \<Rightarrow> None
            | Some (Inl e) \<Rightarrow> Some (Inl e)
            | Some (Inr (g2, j)) \<Rightarrow> Some (Inr (False, g2, kb', j)))"
proof -
  have "k \<noteq> Some ''q''" using assms(3) by (auto simp add: truthy_def)
  then show ?thesis
    unfolding run_iteration_def using assms by (simp add: Let_def)
qed

lemma run_iteration_draw_raises:
  "draw g = Inl e \<Longrightarrow> run_iteration rnd n g kb i = Some (Inl e)"
  by (simp add: run_iteration_def)

lemma start_game_draw: "\<exists>board. draw start_game = Inr board"
  by (rule draw_returns) (simp_all add: start_game_def on_board_def)

lemma start_game_up:
  "move_snake rnd (update_direction start_game ''w'') i =
     Some (Inr (start_game\<lparr>direction := (0, -1), snake := [(20, 9)]\<rparr>, i))"
  by (simp add: update_direction_def directions_def move_snake_def start_game_def hits_wall_def)

text \<open>
  Claim C1, as amended. In the input window of a pass, the first poll that finds a
  key ends the window (\<open>break\<close>), whatever the key and however many polls before it
  found none: that key is the command of the pass, and the bytes pending behind it stay
  in the console buffer for later passes. If the key is \<open>q\<close> the loop is left with the
  state untouched; otherwise the key goes to \<open>update_direction\<close> and the snake moves. A
  later pending key never replaces it within the pass, and a \<open>q\<close> pending behind
  another key does not end that pass. When no poll of the window finds a key, no
  command is applied and the snake moves. All of this after \<open>draw\<close> has returned: when
  \<open>draw\<close> raises, the pass raises.
\<close>

theorem window_stops_at_first_key:
  "(idle_polls m kb = Some kbm \<and> get_input kbm = Some (Inr (Some s, kb')) \<and> s \<noteq> [] \<and> m < n \<longrightarrow>
      poll_window n key kb = Some (Inr (Some s, kb')) \<and>
      run_iteration rnd n g kb i =
        (case draw g of
           Inl e \<Rightarrow> Some (Inl e)
         | Inr board \<Rightarrow>
             if s = ''q'' then Some (Inr (True, g, kb', i))
             else (case move_snake rnd (update_direction g s) i of
                     None \<Rightarrow> None
                   | Some (Inl e) \<Rightarrow> Some (Inl e)
                   | Some (Inr (g2, j)) \<Rightarrow> Some (Inr (False, g2, kb', j))))) \<and>
   (idle_polls n kb = Some kbn \<longrightarrow>
      (\<exists>k. \<not> truthy k \<and> poll_window n None kb = Some (Inr (k, kbn))) \<and>
      run_iteration rnd n g kb i =
        (case draw g of
           Inl e \<Rightarrow> Some (Inl e)
         | Inr board \<Rightarrow>
             (case move_snake rnd g i of
                None \<Rightarrow> None
              | Some (Inl e) \<Rightarrow> Some (Inl e)
              | Some (Inr (g2, j)) \<Rightarrow> Some (Inr (False, g2, kbn, j)))))"
proof (intro conjI impI)
  assume a: "idle_polls m kb = Some kbm \<and> get_input kbm = Some (Inr (Some s, kb')) \<and>
             s \<noteq> [] \<and> m < n"
  then have pw: "\<And>key. poll_window n key kb = Some (Inr (Some s, kb'))"
    using poll_window_after_idle by blast
  show "poll_window n key kb = Some (Inr (Some s, kb'))" by (rule pw)
  show "run_iteration rnd n g kb i =
        (case draw g of
           Inl e \<Rightarrow> Some (Inl e)
         | Inr board \<Rightarrow>
             if s = ''q'' then Some (Inr (True, g, kb', i))
             else (case move_snake rnd (update_direction g s) i of
                     None \<Rightarrow> None
                   | Some (Inl e) \<Rightarrow> Some (Inl e)
                   | Some (Inr (g2, j)) \<Rightarrow> Some (Inr (False, g2, kb', j))))"
  proof (cases "draw g")
    case (Inl e)
    then show ?thesis by (simp add: run_iteration_draw_raises)
  next
    case (Inr board)
    from run_iteration_key[OF Inr pw[of None], of rnd i] a Inr show ?thesis by simp
  qed
next
  assume a: "idle_polls n kb = Some kbn"
  from poll_window_all_idle[OF a, of None] obtain k where
    k: "\<not> truthy k" "poll_window n None kb = Some (Inr (k, kbn))"
    by (auto simp add: truthy_def)
  then show "\<exists>k. \<not> truthy k \<and> poll_window n None kb = Some (Inr (k, kbn))" by blast
  show "run_iteration rnd n g kb i =
        (case draw g of
           Inl e \<Rightarrow> Some (Inl e)
         | Inr board \<Rightarrow>
             (case move_snake rnd g i of
                None \<Rightarrow> None
              | Some (Inl e) \<Rightarrow> Some (Inl e)
              | Some (Inr (g2, j)) \<Rightarrow> Some (Inr (False, g2, kbn, j))))"
  proof (cases "draw g")
    case (Inl e)
    then show ?thesis by (simp add: run_iteration_draw_raises)
  next
    case (Inr board)
    from run_iteration_no_key[OF Inr k(2) k(1), of rnd i] Inr show ?thesis by simp
  qed
qed

theorem window_stops_at_first_key_witness:
  "idle_polls (Suc 0) [CHR 0xE0, CHR ''Z'', CHR ''w'', CHR ''s''] = Some ''ws'' \<and>
   get_input ''ws'' = Some (Inr (Some ''w'', ''s'')) \<and> ''w'' \<noteq> [] \<and> Suc 0 < 20 \<and>
   poll_window 20 None [CHR 0xE0, CHR ''Z'', CHR ''w'', CHR ''s''] =
     Some (Inr (Some ''w'', ''s'')) \<and>
   run_iteration zero_rng 20 start_game [CHR 0xE0, CHR ''Z'', CHR ''w'', CHR ''s''] 2 =
     Some (Inr (False, start_game\<lparr>direction := (0, -1), snake := [(20, 9)]\<rparr>, ''s'', 2)) \<and>
   idle_polls (Suc (Suc 0)) [] = Some [] \<and>
   run_iteration zero_rng (Suc (Suc 0)) start_game [] 2 =
     Some (Inr (False, start_game\<lparr>snake := [(21, 10)]\<rparr>, [], 2))"
proof -
  obtain board where d: "draw start_game = Inr board" using start_game_draw by blast
  have a: "idle_polls (Suc 0) [CHR 0xE0, CHR ''Z'', CHR ''w'', CHR ''s''] = Some ''ws''"
    by (simp add: get_input_unknown_arrow truthy_def)
  have b: "get_input ''ws'' = Some (Inr (Some ''w'', ''s''))" by (rule get_input_w)
  have c: "''w'' \<noteq> []" "Suc 0 < 20" by simp_all
  have e: "idle_polls (Suc (Suc 0)) [] = Some []"
    by (simp add: get_input_def truthy_def)
  from window_stops_at_first_key
    [of "Suc 0" "[CHR 0xE0, CHR ''Z'', CHR ''w'', CHR ''s'']" "''ws''" "''w''" "''s''" 20
        None zero_rng start_game 2]
    a b c d start_game_up [of zero_rng 2]
  have 1: "poll_window 20 None [CHR 0xE0, CHR ''Z'', CHR ''w'', CHR ''s''] =
     Some (Inr (Some ''w'', ''s''))"
    and 2: "run_iteration zero_rng 20 start_game [CHR 0xE0, CHR ''Z'', CHR ''w'', CHR ''s''] 2 =
     Some (Inr (False, start_game\<lparr>direction := (0, -1), snake := [(20, 9)]\<rparr>, ''s'', 2))"
    by simp_all
  from window_stops_at_first_key
    [of _ "[]" _ _ _ "Suc (Suc 0)" _ zero_rng start_game 2 "[]"]
    e d start_game_move [of zero_rng 2]
  have 3: "run_iteration zero_rng (Suc (Suc 0)) start_game [] 2 =
     Some (Inr (False, start_game\<lparr>snake := [(21, 10)]\<rparr>, [], 2))"
    by simp
  from a b c 1 2 e 3 show ?thesis by blast
qed

text \<open>
  The claim as first stated fails with the keys \<open>w\<close> and \<open>s\<close> pending when the window
  opens: the window returns \<open>w\<close> and leaves \<open>s\<close> pending, and the snake turns up, where
  the last command \<open>s\<close> would have turned it down. With \<open>w\<close> and \<open>q\<close> pending the
  window returns \<open>w\<close>: the pass does not quit.
\<close>

theorem window_last_command_counterexample:
  "poll_window 20 None ''ws'' = Some (Inr (Some ''w'', ''s'')) \<and>
   spec_window_command [''w'', ''s''] None = Some ''s'' \<and>
   Some ''w'' \<noteq> spec_window_command [''w'', ''s''] None \<and>
   run_iteration zero_rng 20 start_game ''ws'' 2 =
     Some (Inr (False, start_game\<lparr>direction := (0, -1), snake := [(20, 9)]\<rparr>, ''s'', 2)) \<and>
   direction (update_direction start_game ''s'') = (0, 1) \<and>
   poll_window 20 None ''wq'' = Some (Inr (Some ''w'', ''q'')) \<and>
   spec_window_command [''w'', ''q''] None = Some ''q''"
proof -
  obtain board where d: "draw start_game = Inr board" using start_game_draw by blast
  have i0: "\<And>kb. idle_polls 0 kb = Some kb" by simp
  have 1: "poll_window 20 None ''ws'' = Some (Inr (Some ''w'', ''s''))"
    by (rule poll_window_after_idle[OF i0 get_input_w]) simp_all
  have 2: "poll_window 20 None ''wq'' = Some (Inr (Some ''w'', ''q''))"
    by (rule poll_window_after_idle[OF i0 get_input_w]) simp_all
  have 3: "run_iteration zero_rng 20 start_game ''ws'' 2 =
     Some (Inr (False, start_game\<lparr>direction := (0, -1), snake := [(20, 9)]\<rparr>, ''s'', 2))"
    using run_iteration_key[OF d 1, of zero_rng 2] start_game_up [of zero_rng 2] by simp
  have 4: "direction (update_direction start_game ''s'') = (0, 1)"
    by (simp add: update_direction_def directions_def start_game_def)
  have 5: "spec_window_command [''w'', ''s''] None = Some ''s''"
    "spec_window_command [''w'', ''q''] None = Some ''q''" by simp_all
  from 1 2 3 4 5 show ?thesis by simp
qed

end
